theory Spec2Isabelle
  imports Main
begin

section \<open>The document tree\<close>

text \<open>
  The markdown syntax tree (mdast) as the transform sees it. A text node is a leaf with
  a string \<open>value\<close> (\<open>None\<close> when the field is missing); a link node has a \<open>url\<close>
  and children; every other node kind is opaque: a parent of some other type (root,
  paragraph, emphasis, ...) or a leaf of some other type (inline code, break, ...), tagged
  with its type name. A \<open>char\<close> stands for one code unit of a JavaScript string.
\<close>

datatype node =
    Text "string option"
  | Link string "node list"
  | Container string "node list"
  | Leaf string

datatype error = TypeError

fun children_of :: "node \<Rightarrow> node list option" where
  "children_of (Text v) = None"
| "children_of (Link u cs) = Some cs"
| "children_of (Container t cs) = Some cs"
| "children_of (Leaf t) = None"

fun set_children :: "node \<Rightarrow> node list \<Rightarrow> node" where
  "set_children (Text v) cs = Text v"
| "set_children (Link u old) cs = Link u cs"
| "set_children (Container t old) cs = Container t cs"
| "set_children (Leaf t) cs = Leaf t"

fun is_link :: "node \<Rightarrow> bool" where
  "is_link (Link u cs) = True"
| "is_link n = False"

fun is_text :: "node \<Rightarrow> bool" where
  "is_text (Text v) = True"
| "is_text n = False"

section \<open>The regular expression\<close>

text \<open>
  \<^verbatim>\<open>/\[(\d+)\]/g\<close>: an opening bracket, the group \<^verbatim>\<open>\d+\<close>, a closing bracket.
  \<^verbatim>\<open>\d\<close> is an ASCII digit. \<open>regex_match_at s i\<close> tries the pattern at index \<open>i\<close>:
  the quantifier is greedy and backtracks, so the digit counts are tried from the longest
  run down to one; the result is the number of digits captured.
\<close>

definition is_digit :: "char \<Rightarrow> bool" where
  "is_digit c = (c \<in> set ''0123456789'')"

definition regex_match_at :: "string \<Rightarrow> nat \<Rightarrow> nat option" where
  "regex_match_at s i =
     (if i < length s \<and> s ! i = CHR ''[''
      then (let n = length (takeWhile is_digit (drop (Suc i) s))
            in find (\<lambda>k. Suc i + k < length s \<and> s ! (Suc i + k) = CHR '']'') (rev [1..<Suc n]))
      else None)"

text \<open>\<^verbatim>\<open>String.prototype.slice(from, to)\<close> for indices that are natural numbers.\<close>

definition slice :: "string \<Rightarrow> nat \<Rightarrow> nat \<Rightarrow> string" where
  "slice s from to = take (to - from) (drop from s)"

text \<open>
  The search loop of \<^verbatim>\<open>exec\<close>: starting at \<open>lastIndex\<close>, try each index in turn;
  past the end of the string the search fails.
\<close>

function regex_search :: "string \<Rightarrow> nat \<Rightarrow> (nat \<times> nat) option" where
  "regex_search s i =
     (if length s < i then None
      else (case regex_match_at s i of
              Some k \<Rightarrow> Some (i, k)
            | None \<Rightarrow> regex_search s (Suc i)))"
  by pat_completeness auto
termination
  by (relation "measure (\<lambda>(s, i). Suc (length s) - i)") auto

declare regex_search.simps [simp del]

record regex_match =
  match_index :: nat
  match0 :: string
  match1 :: string

text \<open>
  \<^verbatim>\<open>regex.exec(s)\<close> with the \<^verbatim>\<open>g\<close> flag, as a function of the string and of
  \<^verbatim>\<open>regex.lastIndex\<close>; it returns the match (or \<open>None\<close> for \<^verbatim>\<open>null\<close>) and the
  new \<^verbatim>\<open>regex.lastIndex\<close>: the end of the match, or 0 after a failure.
\<close>

definition regex_exec :: "string \<Rightarrow> nat \<Rightarrow> regex_match option \<times> nat" where
  "regex_exec s lastIndex =
     (case regex_search s lastIndex of
        None \<Rightarrow> (None, 0)
      | Some (i, k) \<Rightarrow>
          (Some \<lparr>match_index = i,
                 match0 = slice s i (i + k + 2),
                 match1 = slice s (Suc i) (Suc i + k)\<rparr>,
           i + k + 2))"

lemma find_Some_mem: "find P xs = Some x \<Longrightarrow> x \<in> set xs \<and> P x"
  by (induction xs) (auto split: if_splits)

lemma not_digit_rbracket: "\<not> is_digit CHR '']''"
  by (simp add: is_digit_def)

lemma takeWhile_digit_nth:
  "k < length (takeWhile is_digit xs) \<Longrightarrow> is_digit (xs ! k)"
  by (metis nth_mem set_takeWhileD takeWhile_nth)

lemma regex_match_at_greedy:
  "regex_match_at s i = Some k \<longleftrightarrow>
     i < length s \<and> s ! i = CHR ''['' \<and> k = length (takeWhile is_digit (drop (Suc i) s))
     \<and> 1 \<le> k \<and> Suc i + k < length s \<and> s ! (Suc i + k) = CHR '']''"
  (is "?L \<longleftrightarrow> ?R")
proof
  let ?n = "length (takeWhile is_digit (drop (Suc i) s))"
  assume L: ?L
  then have b: "i < length s" "s ! i = CHR ''[''"
    and f: "find (\<lambda>k. Suc i + k < length s \<and> s ! (Suc i + k) = CHR '']'') (rev [1..<Suc ?n]) = Some k"
    by (auto simp: regex_match_at_def Let_def split: if_splits)
  from find_Some_mem[OF f] have k: "1 \<le> k" "k \<le> ?n" "Suc i + k < length s" "s ! (Suc i + k) = CHR '']''"
    by auto
  have "k = ?n"
  proof (rule ccontr)
    assume "k \<noteq> ?n"
    with k have "k < ?n" by simp
    from takeWhile_digit_nth[OF this] k(3) have "is_digit (s ! (Suc i + k))" by simp
    with k(4) not_digit_rbracket show False by simp
  qed
  with b k show ?R by simp
next
  let ?n = "length (takeWhile is_digit (drop (Suc i) s))"
  assume R: ?R
  then have kn: "k = ?n" and c: "Suc i + ?n < length s" "s ! (Suc i + ?n) = CHR '']''" by auto
  from R have "rev [1..<Suc ?n] = ?n # rev [1..<?n]" by simp
  then have "find (\<lambda>k. Suc i + k < length s \<and> s ! (Suc i + k) = CHR '']'') (rev [1..<Suc ?n]) = Some ?n"
    using c by simp
  with R kn show ?L by (simp add: regex_match_at_def Let_def)
qed

lemma regex_match_at_bound:
  "regex_match_at s i = Some k \<Longrightarrow> 1 \<le> k \<and> Suc i + k < length s"
  by (simp add: regex_match_at_greedy)

lemma regex_search_bound:
  "regex_search s i = Some (j, k) \<Longrightarrow> i \<le> j \<and> 1 \<le> k \<and> Suc j + k < length s"
proof (induction s i rule: regex_search.induct)
  case (1 s i)
  show ?case
  proof (cases "regex_match_at s i")
    case None
    with "1.prems" have "regex_search s (Suc i) = Some (j, k)" and "\<not> length s < i"
      by (auto simp: regex_search.simps[of s i] split: if_splits)
    with "1.IH"[OF _ None] show ?thesis by auto
  next
    case (Some k')
    with "1.prems" have "j = i" "k = k'"
      by (auto simp: regex_search.simps[of s i] split: if_splits)
    with Some regex_match_at_bound show ?thesis by auto
  qed
qed

lemma regex_exec_advances:
  "regex_exec s r = (Some m, r') \<Longrightarrow> r < r' \<and> r' \<le> length s"
  by (auto simp: regex_exec_def split: option.splits prod.splits dest!: regex_search_bound)

section \<open>The visitor of \<open>remarkLinkCitations\<close>\<close>

text \<open>
  The \<^verbatim>\<open>while\<close> loop: the state is \<^verbatim>\<open>regex.lastIndex\<close>, the local
  \<^verbatim>\<open>lastIndex\<close> and \<^verbatim>\<open>createdNodes\<close>.
\<close>

function scan_citations :: "string \<Rightarrow> nat \<Rightarrow> nat \<Rightarrow> node list \<Rightarrow> nat \<times> node list" where
  "scan_citations originalValue regexLastIndex lastIndex createdNodes =
     (case regex_exec originalValue regexLastIndex of
        (None, r) \<Rightarrow> (lastIndex, createdNodes)
      | (Some m, r) \<Rightarrow>
          scan_citations originalValue r r
            (createdNodes
             @ (if match_index m > lastIndex
                then [Text (Some (slice originalValue lastIndex (match_index m)))]
                else [])
             @ [Link (''#ref-'' @ match1 m) [Text (Some (match0 m))]]))"
  by pat_completeness auto
termination
  by (relation "measure (\<lambda>(s, r, l, c). length s - r)")
     (auto dest!: regex_exec_advances[OF sym])

declare scan_citations.simps [simp del]

text \<open>
  Lines 23 to 57: the nodes that replace a text node with value \<open>originalValue\<close>, or the
  empty list when the visitor returns early because no citation was found.
\<close>

definition createdNodes :: "string \<Rightarrow> node list" where
  "createdNodes originalValue =
     (case scan_citations originalValue 0 0 [] of
        (lastIndex, created) \<Rightarrow>
          if length created = 0 then []
          else if lastIndex < length originalValue
               then created @ [Text (Some (slice originalValue lastIndex (length originalValue)))]
               else created)"

text \<open>\<^verbatim>\<open>children.splice(index, 1, ...items)\<close>.\<close>

definition splice :: "node list \<Rightarrow> nat \<Rightarrow> node list \<Rightarrow> node list" where
  "splice cs i items = take i cs @ items @ drop (Suc i) cs"

text \<open>What the visitor returns to the traversal: nothing, \<^verbatim>\<open>SKIP\<close>, or an index.\<close>

datatype visitor_result = Undefined | SKIP | Index nat

text \<open>
  The visitor, called with the text node's \<open>value\<close>, the index and the parent; it
  returns its result and the parent, whose children it may have spliced. A missing
  \<open>value\<close> reaches \<^verbatim>\<open>regex.exec\<close> as the string \<^verbatim>\<open>undefined\<close>; were a match found
  in it, \<^verbatim>\<open>originalValue.slice\<close> would throw.
\<close>

definition visitor ::
  "string option \<Rightarrow> nat option \<Rightarrow> node option \<Rightarrow> error + (visitor_result \<times> node option)" where
  "visitor v index parent =
     (case parent of
        None \<Rightarrow> Inr (Undefined, parent)
      | Some p \<Rightarrow>
         (case children_of p of
            None \<Rightarrow> Inr (Undefined, parent)
          | Some cs \<Rightarrow>
             (case index of
                None \<Rightarrow> Inr (Undefined, parent)
              | Some i \<Rightarrow>
                  if is_link p then Inr (SKIP, parent)
                  else (case v of
                          None \<Rightarrow>
                            (case regex_exec ''undefined'' 0 of
                               (None, r) \<Rightarrow> Inr (Undefined, parent)
                             | (Some m, r) \<Rightarrow> Inl TypeError)
                        | Some originalValue \<Rightarrow>
                            (let created = createdNodes originalValue
                             in if length created = 0 then Inr (Undefined, parent)
                                else Inr (Index (i + length created),
                                          Some (set_children p (splice cs i created))))))))"

section \<open>The traversal\<close>

text \<open>
  \<^verbatim>\<open>visit(tree, 'text', visitor)\<close> of the library unist-util-visit: a depth-first
  walk in document order that calls the visitor on every node of type text. For a node
  with children it runs a loop over \<^verbatim>\<open>node.children\<close> with a cursor \<open>offset\<close>, reading
  the array anew at every step; after visiting a child, the cursor moves to the number
  the visitor returned, or else to \<open>offset + 1\<close>. The visitor is handed the child's
  index in the parent, which is \<open>offset\<close> in a tree whose nodes are distinct objects. A
  text node has no children, so \<^verbatim>\<open>SKIP\<close> returned for it skips nothing. The
  walk also keeps a log (not in the source) of the values of the nodes it hands to the visitor.

  \<open>weight\<close> and \<open>pending\<close> measure what the loop still has to do.
\<close>

fun weight :: "node \<Rightarrow> nat" where
  "weight (Text v) = 1"
| "weight (Link u cs) = Suc (sum_list (map weight cs))"
| "weight (Container t cs) = Suc (sum_list (map weight cs))"
| "weight (Leaf t) = 1"

definition pending :: "node \<Rightarrow> nat \<Rightarrow> nat" where
  "pending p offset = (case children_of p of None \<Rightarrow> 0 | Some cs \<Rightarrow> sum_list (map weight (drop offset cs)))"

fun next_offset :: "visitor_result \<Rightarrow> nat \<Rightarrow> nat" where
  "next_offset (Index n) offset = n"
| "next_offset r offset = Suc offset"

lemma weight_pos: "0 < weight n"
  by (cases n) auto

lemma children_of_set_children:
  "children_of p = Some cs \<Longrightarrow> children_of (set_children p cs') = Some cs'"
  by (cases p) auto

lemma pending_child:
  "children_of p = Some cs \<Longrightarrow> offset < length cs \<Longrightarrow> pending (cs ! offset) 0 < pending p offset"
proof -
  assume a: "children_of p = Some cs" "offset < length cs"
  have "pending (cs ! offset) 0 < weight (cs ! offset)"
    by (cases "cs ! offset") (auto simp: pending_def)
  also have "\<dots> \<le> sum_list (map weight (drop offset cs))"
    using a(2) by (simp add: Cons_nth_drop_Suc[symmetric])
  finally show ?thesis using a by (simp add: pending_def)
qed

lemma pending_update:
  "children_of p = Some cs \<Longrightarrow> offset < length cs \<Longrightarrow>
   pending (set_children p (cs[offset := c'])) (Suc offset) < pending p offset"
  using weight_pos[of "cs ! offset"]
  by (simp add: pending_def children_of_set_children Cons_nth_drop_Suc[symmetric])

lemma pending_visitor:
  assumes "children_of p = Some cs" "offset < length cs"
    and "visitor v (Some offset) (Some p) = Inr (r, par)"
  shows "pending (case par of None \<Rightarrow> p | Some q \<Rightarrow> q) (next_offset r offset) < pending p offset"
proof -
  have base: "pending p (Suc offset) < pending p offset"
    using assms(1,2) weight_pos[of "cs ! offset"]
    by (simp add: pending_def Cons_nth_drop_Suc[symmetric])
  have sp: "drop (offset + length xs) (splice cs offset xs) = drop (Suc offset) cs" for xs
    using assms(2) by (simp add: splice_def)
  show ?thesis
    using assms base
    by (auto simp: visitor_def Let_def pending_def children_of_set_children sp
             split: if_splits option.splits prod.splits)
qed

text \<open>\<^verbatim>\<open>node.value\<close>, and the loop over the children of \<open>p\<close> from \<open>offset\<close> on.\<close>

fun value_of :: "node \<Rightarrow> string option" where
  "value_of (Text v) = v"
| "value_of n = None"

function visit_children ::
  "node \<Rightarrow> nat \<Rightarrow> string option list \<Rightarrow> error + (node \<times> string option list)" where
  "visit_children p offset log =
     (case children_of p of
        None \<Rightarrow> Inr (p, log)
      | Some cs \<Rightarrow>
          if offset < length cs
          then (let child = cs ! offset
                in if is_text child
                   then (case visitor (value_of child) (Some offset) (Some p) of
                           Inl e \<Rightarrow> Inl e
                         | Inr (r, par) \<Rightarrow>
                             visit_children (case par of None \<Rightarrow> p | Some q \<Rightarrow> q)
                               (next_offset r offset) (log @ [value_of child]))
                   else (case visit_children child 0 log of
                           Inl e \<Rightarrow> Inl e
                         | Inr (child', log') \<Rightarrow>
                             visit_children (set_children p (cs[offset := child']))
                               (Suc offset) log'))
          else Inr (p, log))"
  by pat_completeness auto
termination
  apply (relation "measure (\<lambda>(p, offset, log). pending p offset)")
  apply (auto simp: pending_child pending_update pending_visitor)
  done

declare visit_children.simps [simp del]

text \<open>
  The plugin: the traversal run on the tree, returning the tree as mutated (no error is
  caught on the way). A tree that is itself a text node is handed to the visitor with
  neither index nor parent.
\<close>

definition remarkLinkCitations :: "node \<Rightarrow> error + (node \<times> string option list)" where
  "remarkLinkCitations tree =
     (if is_text tree
      then (case visitor (value_of tree) None None of
              Inl e \<Rightarrow> Inl e
            | Inr (r, par) \<Rightarrow> Inr (tree, [value_of tree]))
      else visit_children tree 0 [])"

section \<open>The renderer's scan for references\<close>

text \<open>
  \<^verbatim>\<open>extractReferences\<close> of the results component: the same regular expression run
  over the source text, the captured numbers added to a \<^verbatim>\<open>Set\<close> (a list without
  duplicates, in insertion order) and then sorted by \<^verbatim>\<open>parseInt\<close>, which is a
  parameter here: any function from strings into a linear order. The renderer emits one
  anchor element per reference, with id \<^verbatim>\<open>ref-\<close> followed by the number.
\<close>

definition set_add :: "string list \<Rightarrow> string \<Rightarrow> string list" where
  "set_add references x = (if x \<in> set references then references else references @ [x])"

function collect_references :: "string \<Rightarrow> nat \<Rightarrow> string list \<Rightarrow> string list" where
  "collect_references text regexLastIndex references =
     (case regex_exec text regexLastIndex of
        (None, r) \<Rightarrow> references
      | (Some m, r) \<Rightarrow> collect_references text r (set_add references (match1 m)))"
  by pat_completeness auto
termination
  by (relation "measure (\<lambda>(s, r, refs). length s - r)")
     (auto dest!: regex_exec_advances[OF sym])

declare collect_references.simps [simp del]

definition extractReferences :: "(string \<Rightarrow> 'k::linorder) \<Rightarrow> string \<Rightarrow> string list" where
  "extractReferences parseInt text = sort_key parseInt (collect_references text 0 [])"

definition anchor_ids :: "string list \<Rightarrow> string list" where
  "anchor_ids referenceArray = map (\<lambda>refNumber. ''ref-'' @ refNumber) referenceArray"

section \<open>The contract of the specification\<close>

text \<open>
  The replacement sequence as the specification words it (section 4.1), by recursion on
  the string, with no index and no matcher state. \<open>cite_prefix\<close> recognises a bracket
  citation at the head of a string: an opening bracket, the longest run of decimal
  digits, which must not be empty, and a closing bracket; it returns the digits and the
  rest of the string. \<open>spec_split\<close> scans left to right, collecting ordinary text in
  \<open>gap\<close>; at a citation it emits the gap as a text node if it is not empty and then the
  link node, and resumes after the closing bracket; at the end it emits the remaining text
  if it is not empty.
\<close>

definition cite_prefix :: "string \<Rightarrow> (string \<times> string) option" where
  "cite_prefix cs =
     (case cs of
        [] \<Rightarrow> None
      | c # r \<Rightarrow>
          if c = CHR ''[''
          then (let ds = takeWhile is_digit r
                in (case dropWhile is_digit r of
                      [] \<Rightarrow> None
                    | e # after \<Rightarrow>
                        if ds \<noteq> [] \<and> e = CHR '']'' then Some (ds, after) else None))
          else None)"

definition text_nodes :: "string \<Rightarrow> node list" where
  "text_nodes gap = (if gap = [] then [] else [Text (Some gap)])"

lemma cite_prefix_iff:
  "cite_prefix xs = Some (ds, after) \<longleftrightarrow>
     xs = CHR ''['' # ds @ CHR '']'' # after \<and> ds \<noteq> [] \<and> (\<forall>c\<in>set ds. is_digit c)"
  (is "?L \<longleftrightarrow> ?R")
proof
  assume ?L
  then obtain r where xs: "xs = CHR ''['' # r"
    and ds: "ds = takeWhile is_digit r" "ds \<noteq> []"
    and dw: "dropWhile is_digit r = CHR '']'' # after"
    by (auto simp: cite_prefix_def Let_def split: list.splits if_splits)
  have "r = ds @ CHR '']'' # after"
    using takeWhile_dropWhile_id[of is_digit r] ds dw by simp
  moreover have "\<forall>c\<in>set ds. is_digit c"
    using ds by (auto dest: set_takeWhileD)
  ultimately show ?R using xs ds by simp
next
  assume R: ?R
  then have tw: "takeWhile is_digit (ds @ CHR '']'' # after) = ds"
    by (simp add: takeWhile_append2 not_digit_rbracket)
  from R have dw: "dropWhile is_digit (ds @ CHR '']'' # after) = CHR '']'' # after"
    by (simp add: dropWhile_append2 not_digit_rbracket)
  from R tw dw show ?L by (simp add: cite_prefix_def Let_def)
qed

lemma cite_prefix_shorter:
  "cite_prefix xs = Some (ds, after) \<Longrightarrow> length after < length xs"
  by (simp add: cite_prefix_iff)

function spec_split :: "string \<Rightarrow> string \<Rightarrow> node list" where
  "spec_split [] gap = text_nodes gap"
| "spec_split (c # cs) gap =
     (case cite_prefix (c # cs) of
        Some (ds, after) \<Rightarrow>
          text_nodes gap
          @ [Link (''#ref-'' @ ds) [Text (Some (''['' @ ds @ '']''))]]
          @ spec_split after []
      | None \<Rightarrow> spec_split cs (gap @ [c]))"
  by pat_completeness auto
termination
  by (relation "measure (\<lambda>(xs, gap). length xs)") (auto dest: cite_prefix_shorter)

declare spec_split.simps(2) [simp del]

text \<open>
  \<open>has_citation s\<close>: the string contains a bracket citation somewhere.
\<close>

fun has_citation :: "string \<Rightarrow> bool" where
  "has_citation [] = False"
| "has_citation (c # cs) =
     (case cite_prefix (c # cs) of Some m \<Rightarrow> True | None \<Rightarrow> has_citation cs)"

text \<open>
  The text a node carries: its own value, or the text of its children in order.
\<close>

fun text_content :: "node \<Rightarrow> string" where
  "text_content (Text v) = (case v of None \<Rightarrow> [] | Some s \<Rightarrow> s)"
| "text_content (Link u cs) = concat (map text_content cs)"
| "text_content (Container t cs) = concat (map text_content cs)"
| "text_content (Leaf t) = []"

text \<open>
  The citation matches of a string in the order they appear: the indices at which the
  regular expression matches, ascending, and the digits captured at each; and the urls
  of the link nodes of a node sequence, in order.
\<close>

definition is_match :: "string \<Rightarrow> nat \<Rightarrow> bool" where
  "is_match s i = (case regex_match_at s i of None \<Rightarrow> False | Some k \<Rightarrow> True)"

definition match_positions :: "string \<Rightarrow> nat list" where
  "match_positions s = filter (is_match s) [0..<length s]"

definition digits_at :: "string \<Rightarrow> nat \<Rightarrow> string" where
  "digits_at s i = (case regex_match_at s i of None \<Rightarrow> [] | Some k \<Rightarrow> slice s (Suc i) (Suc i + k))"

fun link_urls :: "node list \<Rightarrow> string list" where
  "link_urls [] = []"
| "link_urls (Link u cs # ns) = u # link_urls ns"
| "link_urls (n # ns) = link_urls ns"

text \<open>
  The values of the text nodes of a tree, in document order.
\<close>

fun texts :: "node \<Rightarrow> string option list" where
  "texts (Text v) = [v]"
| "texts (Link u cs) = concat (map texts cs)"
| "texts (Container t cs) = concat (map texts cs)"
| "texts (Leaf t) = []"

subsection \<open>One pass over the tree\<close>

text \<open>
  What one pass of the transform makes of a tree, in the specification's terms.
  \<open>spec_rewrite plink n\<close> is what stands in place of a child \<open>n\<close> of a parent that is a link
  (\<open>plink\<close>) or is not. A text node under a parent that is not a link is scanned once, on
  its own value: if the value holds a citation the node gives way to the split of that
  value, and the nodes of the split are final (they are not split again); otherwise it
  stays. A text node under a link stays, unscanned. Every other node stays, with its
  children treated in the same way, each in its turn. \<open>one_pass\<close> is the whole tree; its
  root has no parent and stays if it is a text node.
\<close>

fun spec_rewrite :: "bool \<Rightarrow> node \<Rightarrow> node list" where
  "spec_rewrite plink (Text v) =
     (if plink then [Text v]
      else (case v of
              None \<Rightarrow> [Text v]
            | Some s \<Rightarrow> if has_citation s then spec_split s [] else [Text v]))"
| "spec_rewrite plink (Link u cs) = [Link u (concat (map (spec_rewrite True) cs))]"
| "spec_rewrite plink (Container t cs) = [Container t (concat (map (spec_rewrite False) cs))]"
| "spec_rewrite plink (Leaf t) = [Leaf t]"

fun one_pass :: "node \<Rightarrow> node" where
  "one_pass (Text v) = Text v"
| "one_pass (Link u cs) = Link u (concat (map (spec_rewrite True) cs))"
| "one_pass (Container t cs) = Container t (concat (map (spec_rewrite False) cs))"
| "one_pass (Leaf t) = Leaf t"

subsection \<open>The frame of the transform\<close>

text \<open>
  \<open>inserted n\<close>: \<open>n\<close> is a plain text node or a link node with a single text child.
  \<open>frame_list plink cs cs'\<close>: the node sequence \<open>cs'\<close> arises from the children \<open>cs\<close> of
  a parent that is a link (\<open>plink\<close>) or is not, by splicing only. Every node keeps its
  place, its type and its url or value, and its children are related in the same way;
  the one exception is a text node under a parent that is not a link whose value \<open>s\<close>
  holds a citation: it may give way, where it stands, to the replacement sequence of \<open>s\<close>.
  No other text node changes, none under a link, none without a citation, none
  without a value.
\<close>

fun inserted :: "node \<Rightarrow> bool" where
  "inserted (Text (Some s)) = True"
| "inserted (Link u [Text (Some s)]) = True"
| "inserted n = False"

inductive frame_list :: "bool \<Rightarrow> node list \<Rightarrow> node list \<Rightarrow> bool" where
  nil: "frame_list plink [] []"
| keep_text: "frame_list plink cs cs' \<Longrightarrow> frame_list plink (Text v # cs) (Text v # cs')"
| keep_leaf: "frame_list plink cs cs' \<Longrightarrow> frame_list plink (Leaf t # cs) (Leaf t # cs')"
| keep_link:
    "frame_list True ks ks' \<Longrightarrow> frame_list plink cs cs' \<Longrightarrow>
     frame_list plink (Link u ks # cs) (Link u ks' # cs')"
| keep_container:
    "frame_list False ks ks' \<Longrightarrow> frame_list plink cs cs' \<Longrightarrow>
     frame_list plink (Container t ks # cs) (Container t ks' # cs')"
| replace_text:
    "has_citation s \<Longrightarrow> frame_list False cs cs' \<Longrightarrow>
     frame_list False (Text (Some s) # cs) (spec_split s [] @ cs')"

section \<open>The traversal as a structural recursion\<close>

text \<open>
  For the proofs, the result of the traversal is described without cursor or state.
  \<open>rewrite plink n\<close> is what the traversal leaves in place of a child \<open>n\<close> of a parent
  that is a link (\<open>plink\<close>) or is not; \<open>expected p offset log\<close> is the parent and log
  that the loop over the children of \<open>p\<close> returns when started at \<open>offset\<close>. \<open>trailing\<close>
  is the text node for the rest of the string after the last match, and \<open>exec_all\<close>
  lists the matches that repeated calls of \<^verbatim>\<open>exec\<close> return.
\<close>

fun rewrite :: "bool \<Rightarrow> node \<Rightarrow> node list" where
  "rewrite plink (Text v) =
     (if plink then [Text v]
      else (case v of
              None \<Rightarrow> [Text v]
            | Some s \<Rightarrow> if createdNodes s = [] then [Text v] else createdNodes s))"
| "rewrite plink (Link u cs) = [Link u (concat (map (rewrite True) cs))]"
| "rewrite plink (Container t cs) = [Container t (concat (map (rewrite False) cs))]"
| "rewrite plink (Leaf t) = [Leaf t]"

definition expected :: "node \<Rightarrow> nat \<Rightarrow> string option list \<Rightarrow> node \<times> string option list" where
  "expected p offset log =
     (case children_of p of
        None \<Rightarrow> (p, log)
      | Some cs \<Rightarrow>
          (set_children p (take offset cs @ concat (map (rewrite (is_link p)) (drop offset cs))),
           log @ concat (map texts (drop offset cs))))"

definition trailing :: "string \<Rightarrow> nat \<Rightarrow> node list" where
  "trailing s l = (if l < length s then [Text (Some (slice s l (length s)))] else [])"

function exec_all :: "string \<Rightarrow> nat \<Rightarrow> regex_match list" where
  "exec_all s r =
     (case regex_exec s r of
        (None, r') \<Rightarrow> []
      | (Some m, r') \<Rightarrow> m # exec_all s r')"
  by pat_completeness auto
termination
  by (relation "measure (\<lambda>(s, r). length s - r)")
     (auto dest!: regex_exec_advances[OF sym])

declare exec_all.simps [simp del]

section \<open>Lemmas\<close>

lemma regex_exec_undefined: "regex_exec ''undefined'' 0 = (None, 0)"
  by code_simp

lemma visitor_on_child:
  "children_of p = Some cs \<Longrightarrow>
   visitor v (Some i) (Some p) =
     Inr (if is_link p then (SKIP, Some p)
          else (case v of
                  None \<Rightarrow> (Undefined, Some p)
                | Some s \<Rightarrow>
                    if createdNodes s = [] then (Undefined, Some p)
                    else (Index (i + length (createdNodes s)),
                          Some (set_children p (splice cs i (createdNodes s))))))"
  by (simp add: visitor_def regex_exec_undefined Let_def split: option.splits)

lemma set_children_same: "children_of p = Some cs \<Longrightarrow> set_children p cs = p"
  by (cases p) auto

lemma set_children_twice: "set_children (set_children p a) b = set_children p b"
  by (cases p) auto

lemma is_link_set_children: "is_link (set_children p a) = is_link p"
  by (cases p) auto

lemma children_of_None_set: "children_of p = None \<Longrightarrow> set_children p a = p"
  by (cases p) auto

lemma rewrite_nontext:
  "\<not> is_text c \<Longrightarrow> rewrite plink c = [fst (expected c 0 log)]"
  by (cases c) (auto simp: expected_def)

lemma texts_nontext:
  "\<not> is_text c \<Longrightarrow> log @ texts c = snd (expected c 0 log)"
  by (cases c) (auto simp: expected_def)

lemma visit_children_expected:
  "visit_children p offset log = Inr (expected p offset log)"
proof (induction p offset log rule: visit_children.induct)
  case (1 p offset log)
  show ?case
  proof (cases "children_of p")
    case None
    then show ?thesis by (simp add: visit_children.simps[of p offset log] expected_def)
  next
    case (Some cs)
    show ?thesis
    proof (cases "offset < length cs")
      case False
      with Some show ?thesis
        by (simp add: visit_children.simps[of p offset log] expected_def set_children_same)
    next
      case True
      let ?c = "cs ! offset"
      have dr: "drop offset cs = ?c # drop (Suc offset) cs"
        using True by (simp add: Cons_nth_drop_Suc)
      show ?thesis
      proof (cases "is_text ?c")
        case ist: True
        then obtain v where v: "?c = Text v" by (cases ?c) auto
        obtain x where "visitor v (Some offset) (Some p) = Inr x"
          using visitor_on_child[OF Some, of v offset] by blast
        then obtain r par where vis: "visitor v (Some offset) (Some p) = Inr (r, par)"
          by (cases x) auto
        have IH: "visit_children (case par of None \<Rightarrow> p | Some q \<Rightarrow> q) (next_offset r offset) (log @ [v])
                  = Inr (expected (case par of None \<Rightarrow> p | Some q \<Rightarrow> q) (next_offset r offset) (log @ [v]))"
          using "1.IH"(1)[OF Some True refl ist _ refl, of r par] vis v by simp
        have step: "visit_children p offset log
                  = visit_children (case par of None \<Rightarrow> p | Some q \<Rightarrow> q) (next_offset r offset) (log @ [v])"
          using Some True ist vis v by (simp add: visit_children.simps[of p offset log])
        have "expected (case par of None \<Rightarrow> p | Some q \<Rightarrow> q) (next_offset r offset) (log @ [v])
              = expected p offset log"
        proof (cases "is_link p \<or> v = None \<or> (\<exists>s. v = Some s \<and> createdNodes s = [])")
          case True
          then have "par = Some p" "next_offset r offset = Suc offset"
            using vis visitor_on_child[OF Some, of v offset] by (auto split: if_splits)
          moreover have "rewrite (is_link p) (Text v) = [Text v]"
            using True by auto
          ultimately show ?thesis
            using Some dr v \<open>offset < length cs\<close>
            by (simp add: expected_def take_Suc_conv_app_nth)
        next
          case False
          then obtain s where s: "v = Some s" "createdNodes s \<noteq> []" "\<not> is_link p" by auto
          then have pr: "par = Some (set_children p (splice cs offset (createdNodes s)))"
            "next_offset r offset = offset + length (createdNodes s)"
            using vis visitor_on_child[OF Some, of v offset] by (auto split: if_splits)
          have rw: "rewrite (is_link p) (Text v) = createdNodes s"
            using s by simp
          have tk: "take (offset + length (createdNodes s)) (splice cs offset (createdNodes s))
                    = take offset cs @ createdNodes s"
            and dp: "drop (offset + length (createdNodes s)) (splice cs offset (createdNodes s))
                    = drop (Suc offset) cs"
            using \<open>offset < length cs\<close> by (simp_all add: splice_def)
          show ?thesis
            using Some dr v rw
            by (simp add: pr expected_def children_of_set_children tk dp set_children_twice
                          is_link_set_children)
        qed
        with step IH show ?thesis by simp
      next
        case nontext: False
        have IH1: "visit_children ?c 0 log = Inr (expected ?c 0 log)"
          using "1.IH"(2)[OF Some True refl nontext] .
        obtain c' log' where e: "expected ?c 0 log = (c', log')"
          by (cases "expected ?c 0 log") auto
        have IH2: "visit_children (set_children p (cs[offset := c'])) (Suc offset) log'
                   = Inr (expected (set_children p (cs[offset := c'])) (Suc offset) log')"
          using "1.IH"(3)[OF Some True refl nontext _ refl, of c' log'] IH1 e by simp
        have step: "visit_children p offset log
                  = visit_children (set_children p (cs[offset := c'])) (Suc offset) log'"
          using Some True nontext IH1 e by (simp add: visit_children.simps[of p offset log])
        have rw: "rewrite (is_link p) ?c = [c']" and tx: "log @ texts ?c = log'"
          using rewrite_nontext[OF nontext, of "is_link p" log] texts_nontext[OF nontext, of log] e
          by simp_all
        have "expected (set_children p (cs[offset := c'])) (Suc offset) log' = expected p offset log"
          using Some dr rw tx[symmetric] True
          by (simp add: expected_def children_of_set_children set_children_twice
                        is_link_set_children take_Suc_conv_app_nth)
        with step IH2 show ?thesis by simp
      qed
    qed
  qed
qed

lemma cite_prefix_append:
  "cite_prefix xs = Some (ds, after) \<Longrightarrow> cite_prefix (xs @ ys) = Some (ds, after @ ys)"
  by (simp add: cite_prefix_iff)

lemma regex_match_at_prefix_Some:
  assumes "regex_match_at s i = Some k"
  shows "cite_prefix (drop i s) = Some (slice s (Suc i) (Suc i + k), drop (i + k + 2) s)"
proof -
  let ?r = "drop (Suc i) s"
  from assms have g: "i < length s" "s ! i = CHR ''[''" "k = length (takeWhile is_digit ?r)"
    "1 \<le> k" "Suc i + k < length s" "s ! (Suc i + k) = CHR '']''"
    unfolding regex_match_at_greedy by blast+
  have d: "drop i s = CHR ''['' # ?r" using g(1,2) by (simp add: Cons_nth_drop_Suc[symmetric])
  have tw: "takeWhile is_digit ?r = take k ?r" unfolding g(3) by (rule takeWhile_eq_take)
  have "drop k ?r = CHR '']'' # drop (i + k + 2) s"
    using Cons_nth_drop_Suc[OF g(5)] g(6) by (simp add: add.commute)
  then have r: "?r = take k ?r @ CHR '']'' # drop (i + k + 2) s"
    using append_take_drop_id[of k ?r] by simp
  have "take k ?r \<noteq> []" using g(4,5) by auto
  moreover have "\<forall>c\<in>set (take k ?r). is_digit c"
    using tw by (metis set_takeWhileD)
  ultimately show ?thesis
    using d r by (simp add: cite_prefix_iff slice_def)
qed

lemma regex_match_at_prefix_None:
  assumes "regex_match_at s i = None"
  shows "cite_prefix (drop i s) = None"
proof (rule ccontr)
  assume "cite_prefix (drop i s) \<noteq> None"
  then obtain ds after where c: "cite_prefix (drop i s) = Some (ds, after)" by auto
  then have d: "drop i s = CHR ''['' # ds @ CHR '']'' # after" "ds \<noteq> []" "\<forall>c\<in>set ds. is_digit c"
    by (simp_all add: cite_prefix_iff)
  then have i: "i < length s" by (cases "i < length s") auto
  have si: "s ! i = CHR ''[''" using d(1) i by (metis nth_via_drop)
  have r: "drop (Suc i) s = ds @ CHR '']'' # after"
    using d(1) by (metis drop_Suc list.sel(3) tl_drop)
  have tw: "takeWhile is_digit (drop (Suc i) s) = ds"
    using d r by (simp add: takeWhile_append2 not_digit_rbracket)
  have len: "length (drop (Suc i) s) = length ds + Suc (length after)" using r by simp
  have nth: "drop (Suc i) s ! length ds = CHR '']''" using r by (simp add: nth_append)
  have pos: "1 \<le> length ds" using d(2) by (cases ds) auto
  have lt: "Suc i + length ds < length s" using len i by simp
  have "s ! (Suc i + length ds) = CHR '']''" using nth lt by simp
  then have "regex_match_at s i = Some (length ds)"
    unfolding regex_match_at_greedy using i si tw pos lt by simp
  with assms show False by simp
qed

lemma regex_search_None:
  "regex_search s l = None \<Longrightarrow> l \<le> i \<Longrightarrow> regex_match_at s i = None"
proof (induction s l rule: regex_search.induct)
  case (1 s l)
  show ?case
  proof (cases "length s < l")
    case True
    with "1.prems" show ?thesis by (simp add: regex_match_at_def)
  next
    case False
    with "1.prems"(1) have n: "regex_match_at s l = None" and r: "regex_search s (Suc l) = None"
      by (auto simp: regex_search.simps[of s l] split: option.splits)
    show ?thesis
    proof (cases "i = l")
      case True
      with n show ?thesis by simp
    next
      case False
      with "1.prems"(2) have "Suc l \<le> i" by simp
      with "1.IH"[OF \<open>\<not> length s < l\<close> n r] show ?thesis by simp
    qed
  qed
qed

lemma regex_search_Some:
  "regex_search s l = Some (j, k) \<Longrightarrow>
     l \<le> j \<and> regex_match_at s j = Some k \<and> (\<forall>i. l \<le> i \<and> i < j \<longrightarrow> regex_match_at s i = None)"
proof (induction s l rule: regex_search.induct)
  case (1 s l)
  from "1.prems" have nl: "\<not> length s < l"
    by (auto simp: regex_search.simps[of s l] split: if_splits)
  show ?case
  proof (cases "regex_match_at s l")
    case (Some k')
    with "1.prems" nl have "j = l" "k = k'"
      by (auto simp: regex_search.simps[of s l])
    with Some show ?thesis by auto
  next
    case None
    with "1.prems" nl have r: "regex_search s (Suc l) = Some (j, k)"
      by (auto simp: regex_search.simps[of s l])
    from "1.IH"[OF nl None r] have ih: "Suc l \<le> j" "regex_match_at s j = Some k"
      "\<forall>i. Suc l \<le> i \<and> i < j \<longrightarrow> regex_match_at s i = None" by auto
    have "regex_match_at s i = None" if "l \<le> i" "i < j" for i
    proof (cases "i = l")
      case True
      with None show ?thesis by simp
    next
      case False
      with that ih(3) show ?thesis by simp
    qed
    with ih show ?thesis by auto
  qed
qed

lemma spec_split_skip:
  "(\<forall>i<n. cite_prefix (drop i xs) = None) \<Longrightarrow> n \<le> length xs \<Longrightarrow>
   spec_split xs gap = spec_split (drop n xs) (gap @ take n xs)"
proof (induction n arbitrary: xs gap)
  case 0
  then show ?case by simp
next
  case (Suc n)
  then obtain c cs where xs: "xs = c # cs" by (cases xs) auto
  from Suc.prems(1) have "cite_prefix (drop 0 xs) = None" by blast
  then have st: "spec_split xs gap = spec_split cs (gap @ [c])"
    using xs by (simp add: spec_split.simps(2))
  have "\<forall>i<n. cite_prefix (drop i cs) = None"
  proof (intro allI impI)
    fix i assume "i < n"
    then have "cite_prefix (drop (Suc i) xs) = None" using Suc.prems(1) by simp
    then show "cite_prefix (drop i cs) = None" using xs by simp
  qed
  from Suc.IH[OF this, of "gap @ [c]"] Suc.prems(2) xs st show ?case by simp
qed

lemma spec_split_no_match:
  "(\<forall>i<length xs. cite_prefix (drop i xs) = None) \<Longrightarrow> spec_split xs gap = text_nodes (gap @ xs)"
  using spec_split_skip[of "length xs" xs gap] by simp

lemma trailing_text_nodes: "trailing s l = text_nodes (drop l s)"
  by (simp add: trailing_def text_nodes_def slice_def)

lemma scan_citations_spec:
  "r = l \<Longrightarrow> l \<le> length s \<Longrightarrow>
   (case scan_citations s r l created of
      (l', created') \<Rightarrow> created' @ trailing s l' = created @ spec_split (drop l s) [])"
proof (induction s r l created rule: scan_citations.induct)
  case (1 s r l created)
  note rl = \<open>r = l\<close>
  show ?case
  proof (cases "regex_search s l")
    case None
    then have ex: "regex_exec s r = (None, 0)" using rl by (simp add: regex_exec_def)
    have "\<forall>i<length (drop l s). cite_prefix (drop i (drop l s)) = None"
      using regex_search_None[OF None] by (simp add: regex_match_at_prefix_None)
    from spec_split_no_match[OF this, of "[]"] ex show ?thesis
      by (simp add: scan_citations.simps[of s r l created] trailing_text_nodes)
  next
    case (Some jk)
    then obtain j k where jk: "regex_search s l = Some (j, k)" by (cases jk) auto
    define m where "m = \<lparr>match_index = j, match0 = slice s j (j + k + 2),
                          match1 = slice s (Suc j) (Suc j + k)\<rparr>"
    have ex: "regex_exec s r = (Some m, j + k + 2)"
      using jk rl by (simp add: regex_exec_def m_def)
    from regex_search_Some[OF jk] have lj: "l \<le> j" and mj: "regex_match_at s j = Some k"
      and nm: "\<forall>i. l \<le> i \<and> i < j \<longrightarrow> regex_match_at s i = None" by auto
    from regex_match_at_bound[OF mj] have bd: "1 \<le> k" "Suc j + k < length s" by auto
    let ?gap = "if l < j then [Text (Some (slice s l j))] else []"
    let ?link = "Link (''#ref-'' @ slice s (Suc j) (Suc j + k)) [Text (Some (slice s j (j + k + 2)))]"
    have st: "scan_citations s r l created
              = scan_citations s (j + k + 2) (j + k + 2) (created @ ?gap @ [?link])"
      using ex by (simp add: scan_citations.simps[of s r l created] m_def cong: if_cong)
    have IH: "(case scan_citations s (j + k + 2) (j + k + 2) (created @ ?gap @ [?link]) of
                 (l', created') \<Rightarrow> created' @ trailing s l'
                    = (created @ ?gap @ [?link]) @ spec_split (drop (j + k + 2) s) [])"
      using "1.IH"[OF ex[symmetric] refl refl] bd by (simp add: m_def cong: if_cong)
    have sk: "spec_split (drop l s) [] = spec_split (drop j s) (slice s l j)"
    proof -
      have "\<forall>i<j - l. cite_prefix (drop i (drop l s)) = None"
        using nm by (simp add: regex_match_at_prefix_None)
      from spec_split_skip[OF this, of "[]"] lj bd show ?thesis
        by (simp add: slice_def)
    qed
    have dj: "drop j s \<noteq> []" using bd by simp
    then obtain c cs where ccs: "drop j s = c # cs" by (cases "drop j s") auto
    have m0: "slice s j (j + k + 2) = ''['' @ slice s (Suc j) (Suc j + k) @ '']''"
      using regex_match_at_prefix_Some[OF mj] bd
      by (simp add: cite_prefix_iff slice_def)
    have "spec_split (drop j s) (slice s l j)
          = text_nodes (slice s l j) @ [?link] @ spec_split (drop (j + k + 2) s) []"
      using regex_match_at_prefix_Some[OF mj] ccs m0
      by (simp add: spec_split.simps(2))
    moreover have "text_nodes (slice s l j) = ?gap"
      using lj bd by (auto simp: text_nodes_def slice_def)
    ultimately show ?thesis using st IH sk by simp
  qed
qed

lemma has_citation_iff:
  "has_citation xs \<longleftrightarrow> (\<exists>i<length xs. cite_prefix (drop i xs) \<noteq> None)"
proof (induction xs)
  case Nil
  then show ?case by simp
next
  case (Cons c cs)
  show ?case
  proof (cases "cite_prefix (c # cs)")
    case (Some m)
    then have "cite_prefix (drop 0 (c # cs)) \<noteq> None" by simp
    then have "\<exists>i<length (c # cs). cite_prefix (drop i (c # cs)) \<noteq> None" by blast
    with Some show ?thesis by simp
  next
    case None
    have "(\<exists>i<length (c # cs). cite_prefix (drop i (c # cs)) \<noteq> None)
          \<longleftrightarrow> (\<exists>i<length cs. cite_prefix (drop i cs) \<noteq> None)" (is "?A \<longleftrightarrow> ?B")
    proof
      assume ?A
      then obtain i where i: "i < length (c # cs)" "cite_prefix (drop i (c # cs)) \<noteq> None" by blast
      with None obtain i' where "i = Suc i'" by (cases i) auto
      with i show ?B by auto
    next
      assume ?B
      then obtain i where "i < length cs" "cite_prefix (drop i cs) \<noteq> None" by blast
      then have "Suc i < length (c # cs)" "cite_prefix (drop (Suc i) (c # cs)) \<noteq> None" by auto
      then show ?A by blast
    qed
    with None Cons.IH show ?thesis by simp
  qed
qed

lemma cite_prefix_Nil: "cite_prefix [] = None"
  by (simp add: cite_prefix_def)

lemma regex_match_at_cite_prefix:
  "regex_match_at s i = None \<longleftrightarrow> cite_prefix (drop i s) = None"
  using regex_match_at_prefix_None[of s i] regex_match_at_prefix_Some[of s i]
  by (cases "regex_match_at s i") auto

lemma regex_search_has_citation:
  "regex_search s 0 = None \<longleftrightarrow> \<not> has_citation s"
proof
  assume "regex_search s 0 = None"
  then have "\<forall>i. regex_match_at s i = None" using regex_search_None by blast
  then show "\<not> has_citation s"
    by (simp add: has_citation_iff regex_match_at_cite_prefix)
next
  assume n: "\<not> has_citation s"
  show "regex_search s 0 = None"
  proof (rule ccontr)
    assume "regex_search s 0 \<noteq> None"
    then obtain j k where "regex_search s 0 = Some (j, k)" by auto
    from regex_search_Some[OF this] have m: "regex_match_at s j = Some k" by simp
    from regex_match_at_bound[OF m] have "j < length s" by simp
    moreover from m have "cite_prefix (drop j s) \<noteq> None"
      by (simp add: regex_match_at_prefix_Some)
    ultimately show False using n by (auto simp: has_citation_iff)
  qed
qed

lemma scan_citations_grows:
  "length created \<le> length (snd (scan_citations s r l created))"
proof (induction s r l created rule: scan_citations.induct)
  case (1 s r l created)
  show ?case
  proof (cases "regex_exec s r")
    case (Pair mo r')
    show ?thesis
    proof (cases mo)
      case None
      with Pair show ?thesis by (simp add: scan_citations.simps[of s r l created])
    next
      case (Some m)
      with Pair "1.IH"[OF Pair[symmetric] Some] show ?thesis
        by (simp add: scan_citations.simps[of s r l created] split: if_splits)
    qed
  qed
qed

lemma scan_citations_empty:
  "snd (scan_citations s 0 0 []) = [] \<longleftrightarrow> regex_search s 0 = None"
proof (cases "regex_search s 0")
  case None
  then show ?thesis by (simp add: scan_citations.simps[of s 0 0 "[]"] regex_exec_def)
next
  case (Some jk)
  then obtain m r' where ex: "regex_exec s 0 = (Some m, r')"
    by (cases jk) (auto simp: regex_exec_def)
  let ?c = "(if match_index m > 0 then [Text (Some (slice s 0 (match_index m)))] else [])
            @ [Link (''#ref-'' @ match1 m) [Text (Some (match0 m))]]"
  have "scan_citations s 0 0 [] = scan_citations s r' r' ([] @ ?c)"
    using ex by (simp add: scan_citations.simps[of s 0 0 "[]"])
  moreover have "length ([] @ ?c) \<le> length (snd (scan_citations s r' r' ([] @ ?c)))"
    by (rule scan_citations_grows)
  ultimately have "snd (scan_citations s 0 0 []) \<noteq> []" by auto
  with Some show ?thesis by simp
qed

lemma createdNodes_spec:
  "createdNodes s = (if has_citation s then spec_split s [] else [])"
proof -
  obtain l' created' where sc: "scan_citations s 0 0 [] = (l', created')"
    by (cases "scan_citations s 0 0 []") auto
  from scan_citations_spec[of 0 0 s "[]"] sc
  have eq: "created' @ trailing s l' = spec_split s []" by simp
  have em: "created' = [] \<longleftrightarrow> \<not> has_citation s"
    using scan_citations_empty[of s] sc by (simp add: regex_search_has_citation)
  show ?thesis
  proof (cases "has_citation s")
    case True
    with em eq sc show ?thesis
      by (auto simp: createdNodes_def trailing_def)
  next
    case False
    with em sc show ?thesis by (simp add: createdNodes_def)
  qed
qed




lemma text_content_text_nodes: "concat (map text_content (text_nodes g)) = g"
  by (simp add: text_nodes_def)

lemma text_content_spec_split:
  "concat (map text_content (spec_split xs gap)) = gap @ xs"
proof (induction xs gap rule: spec_split.induct)
  case (1 gap)
  then show ?case by (simp add: text_content_text_nodes)
next
  case (2 c cs gap)
  show ?case
  proof (cases "cite_prefix (c # cs)")
    case None
    with "2.IH"(1) show ?thesis by (simp add: spec_split.simps(2))
  next
    case (Some m)
    then obtain ds after where m: "m = (ds, after)" by (cases m) auto
    with Some have d: "c # cs = CHR ''['' # ds @ CHR '']'' # after"
      by (simp add: cite_prefix_iff)
    from "2.IH"(2)[OF Some m[symmetric]] Some m d show ?thesis
      by (simp add: spec_split.simps(2) text_content_text_nodes)
  qed
qed

lemma visitor_Index:
  assumes "children_of p = Some cs" and "visitor (Some s) (Some i) (Some p) = Inr (Index n, q)"
  shows "\<not> is_link p \<and> has_citation s \<and> createdNodes s = spec_split s []
         \<and> q = Some (set_children p (splice cs i (createdNodes s)))
         \<and> n = i + length (createdNodes s)"
proof -
  from assms(2) visitor_on_child[OF assms(1), of "Some s" i]
  have a: "\<not> is_link p" "createdNodes s \<noteq> []"
    "q = Some (set_children p (splice cs i (createdNodes s)))" "n = i + length (createdNodes s)"
    by (auto split: if_splits)
  from a(2) have "has_citation s" by (auto simp: createdNodes_spec split: if_splits)
  with a show ?thesis by (simp add: createdNodes_spec)
qed

lemma link_urls_append: "link_urls (xs @ ys) = link_urls xs @ link_urls ys"
  by (induction xs rule: link_urls.induct) auto

lemma no_match_inside:
  assumes "regex_match_at s j = Some k" and "j < i" and "i < j + k + 2"
  shows "regex_match_at s i = None"
proof -
  let ?r = "drop (Suc j) s"
  from assms(1) have g: "k = length (takeWhile is_digit ?r)" "Suc j + k < length s"
    "s ! (Suc j + k) = CHR '']''"
    unfolding regex_match_at_greedy by blast+
  have "s ! i \<noteq> CHR ''[''"
  proof (cases "i = Suc j + k")
    case True
    with g(3) show ?thesis by simp
  next
    case False
    with assms(2,3) have lt: "i - Suc j < length (takeWhile is_digit ?r)" using g(1) by simp
    have "?r ! (i - Suc j) = s ! i" using assms(2) g(2) lt by simp
    with takeWhile_digit_nth[OF lt] have "is_digit (s ! i)" by simp
    then show ?thesis by (auto simp: is_digit_def)
  qed
  then show ?thesis by (simp add: regex_match_at_def)
qed

lemma upt_split: "i \<le> j \<Longrightarrow> j \<le> k \<Longrightarrow> [i..<k] = [i..<j] @ [j..<k]"
  using upt_add_eq_append[of i j "k - j"] by simp

lemma exec_all_positions:
  "l \<le> length s \<Longrightarrow>
   map (\<lambda>m. (match_index m, match1 m)) (exec_all s l)
     = map (\<lambda>i. (i, digits_at s i)) (filter (is_match s) [l..<length s])"
proof (induction s l rule: exec_all.induct)
  case (1 s l)
  show ?case
  proof (cases "regex_search s l")
    case None
    then have "exec_all s l = []"
      by (simp add: exec_all.simps[of s l] regex_exec_def)
    moreover have "filter (is_match s) [l..<length s] = []"
      using regex_search_None[OF None] by (auto simp: filter_empty_conv is_match_def)
    ultimately show ?thesis by simp
  next
    case (Some jk)
    then obtain j k where jk: "regex_search s l = Some (j, k)" by (cases jk) auto
    define m where "m = \<lparr>match_index = j, match0 = slice s j (j + k + 2),
                          match1 = slice s (Suc j) (Suc j + k)\<rparr>"
    have ex: "regex_exec s l = (Some m, j + k + 2)"
      using jk by (simp add: regex_exec_def m_def)
    from regex_search_Some[OF jk] have lj: "l \<le> j" and mj: "regex_match_at s j = Some k"
      and nm: "\<forall>i. l \<le> i \<and> i < j \<longrightarrow> regex_match_at s i = None" by auto
    from regex_match_at_bound[OF mj] have bd: "1 \<le> k" "Suc j + k < length s" by auto
    have st: "exec_all s l = m # exec_all s (j + k + 2)"
      using ex by (simp add: exec_all.simps[of s l])
    have IH: "map (\<lambda>m. (match_index m, match1 m)) (exec_all s (j + k + 2))
              = map (\<lambda>i. (i, digits_at s i)) (filter (is_match s) [j + k + 2..<length s])"
      using "1.IH"[OF ex[symmetric] refl] bd by simp
    have sp: "[l..<length s] = [l..<j] @ j # [Suc j..<j + k + 2] @ [j + k + 2..<length s]"
    proof -
      have "[l..<length s] = [l..<j] @ [j..<length s]"
        using lj bd by (simp add: upt_split[of l j "length s"])
      also have "[j..<length s] = j # [Suc j..<length s]"
        using bd by (simp add: upt_conv_Cons)
      also have "[Suc j..<length s] = [Suc j..<j + k + 2] @ [j + k + 2..<length s]"
        using bd by (simp add: upt_split[of "Suc j" "j + k + 2" "length s"])
      finally show ?thesis .
    qed
    have f1: "filter (is_match s) [l..<j] = []"
      using nm by (auto simp: filter_empty_conv is_match_def)
    have f2: "filter (is_match s) [Suc j..<j + k + 2] = []"
      using no_match_inside[OF mj] by (auto simp: filter_empty_conv is_match_def)
    have f3: "is_match s j" using mj by (simp add: is_match_def)
    have "filter (is_match s) [l..<length s] = j # filter (is_match s) [j + k + 2..<length s]"
      unfolding sp by (simp only: filter_append filter.simps f1 f2 f3 if_True append_Nil)
    moreover have "digits_at s j = match1 m" using mj by (simp add: digits_at_def m_def)
    moreover have "match_index m = j" by (simp add: m_def)
    ultimately show ?thesis using st IH by simp
  qed
qed

lemma scan_citations_links:
  "link_urls (snd (scan_citations s r l created))
     = link_urls created @ map (\<lambda>m. ''#ref-'' @ match1 m) (exec_all s r)"
proof (induction s r l created rule: scan_citations.induct)
  case (1 s r l created)
  show ?case
  proof (cases "regex_exec s r")
    case (Pair mo r')
    show ?thesis
    proof (cases mo)
      case None
      with Pair show ?thesis
        by (simp add: scan_citations.simps[of s r l created] exec_all.simps[of s r])
    next
      case (Some m)
      with Pair "1.IH"[OF Pair[symmetric] Some] show ?thesis
        by (simp add: scan_citations.simps[of s r l created] exec_all.simps[of s r]
                      link_urls_append)
    qed
  qed
qed

lemma createdNodes_links:
  "link_urls (createdNodes s) = map (\<lambda>i. ''#ref-'' @ digits_at s i) (match_positions s)"
proof -
  obtain l' created' where sc: "scan_citations s 0 0 [] = (l', created')"
    by (cases "scan_citations s 0 0 []") auto
  have ep: "map (\<lambda>m. (match_index m, match1 m)) (exec_all s 0)
            = map (\<lambda>i. (i, digits_at s i)) (match_positions s)"
    unfolding match_positions_def by (rule exec_all_positions) simp
  have "map (\<lambda>m. ''#ref-'' @ match1 m) (exec_all s 0)
        = map (\<lambda>p. ''#ref-'' @ snd p) (map (\<lambda>m. (match_index m, match1 m)) (exec_all s 0))"
    by (simp add: comp_def)
  also have "\<dots> = map (\<lambda>p. ''#ref-'' @ snd p) (map (\<lambda>i. (i, digits_at s i)) (match_positions s))"
    by (simp only: ep)
  finally have e: "map (\<lambda>m. ''#ref-'' @ match1 m) (exec_all s 0)
                   = map (\<lambda>i. ''#ref-'' @ digits_at s i) (match_positions s)"
    by (simp add: comp_def)
  from scan_citations_links[of s 0 0 "[]"] sc
  have l: "link_urls created' = map (\<lambda>i. ''#ref-'' @ digits_at s i) (match_positions s)"
    using e by simp
  show ?thesis
  proof (cases "created' = []")
    case True
    with l sc show ?thesis by (simp add: createdNodes_def)
  next
    case False
    with l sc show ?thesis by (simp add: createdNodes_def link_urls_append)
  qed
qed

lemma visit_children_whole:
  "children_of p = Some cs \<Longrightarrow>
   visit_children p 0 log =
     Inr (set_children p (concat (map (rewrite (is_link p)) cs)), log @ concat (map texts cs))"
  by (simp add: visit_children_expected expected_def)

lemma visit_children_part:
  assumes "children_of p = Some cs" and "visit_children (set_children p xs) 0 log = Inr (q, log')"
  shows "children_of q = Some (concat (map (rewrite (is_link p)) xs))
         \<and> q = set_children p (concat (map (rewrite (is_link p)) xs))
         \<and> log' = log @ concat (map texts xs)"
proof -
  have c: "children_of (set_children p ys) = Some ys" for ys
    by (rule children_of_set_children[OF assms(1)])
  from assms(2) visit_children_whole[OF c[of xs], of log]
  have "q = set_children p (concat (map (rewrite (is_link p)) xs))"
    and "log' = log @ concat (map texts xs)"
    by (simp_all add: set_children_twice is_link_set_children)
  then show ?thesis using c by simp
qed

lemma visit_children_around:
  assumes p: "children_of p = Some (pre @ c # post)"
    and pre: "visit_children (set_children p pre) 0 log = Inr (q1, log1)"
    and post: "visit_children (set_children p post) 0 (log1 @ texts c) = Inr (q2, log2)"
  shows "\<exists>pre' post'. children_of q1 = Some pre' \<and> children_of q2 = Some post'
           \<and> visit_children p 0 log
               = Inr (set_children p (pre' @ rewrite (is_link p) c @ post'), log2)"
proof -
  from visit_children_part[OF p pre]
  have q1: "children_of q1 = Some (concat (map (rewrite (is_link p)) pre))"
    and l1: "log1 = log @ concat (map texts pre)" by blast+
  from visit_children_part[OF p post]
  have q2: "children_of q2 = Some (concat (map (rewrite (is_link p)) post))"
    and l2: "log2 = (log1 @ texts c) @ concat (map texts post)" by blast+
  from q1 q2 l1 l2
  have "children_of q1 = Some (concat (map (rewrite (is_link p)) pre))"
    "children_of q2 = Some (concat (map (rewrite (is_link p)) post))"
    "log2 = log @ concat (map texts pre) @ texts c @ concat (map texts post)"
    by simp_all
  then show ?thesis using visit_children_whole[OF p, of log] by simp
qed

lemma createdNodes_empty: "createdNodes s = [] \<longleftrightarrow> \<not> has_citation s"
proof -
  obtain l' created' where sc: "scan_citations s 0 0 [] = (l', created')"
    by (cases "scan_citations s 0 0 []") auto
  with scan_citations_empty[of s] have "created' = [] \<longleftrightarrow> \<not> has_citation s"
    by (simp add: regex_search_has_citation)
  with sc show ?thesis by (auto simp: createdNodes_def)
qed

lemma rewrite_no_citation:
  "\<not> has_citation s \<Longrightarrow> rewrite plink (Text (Some s)) = [Text (Some s)]"
  by (simp add: createdNodes_spec)

lemma rewrite_citation:
  "has_citation s \<Longrightarrow> rewrite False (Text (Some s)) = createdNodes s"
  by (simp add: createdNodes_empty)

lemma no_citation_in_gap:
  assumes "\<forall>i<length gap. cite_prefix (drop i (gap @ xs)) = None"
  shows "\<not> has_citation gap"
proof -
  have "cite_prefix (drop i gap) = None" if "i < length gap" for i
  proof (rule ccontr)
    assume "cite_prefix (drop i gap) \<noteq> None"
    then obtain ds after where "cite_prefix (drop i gap) = Some (ds, after)" by auto
    from cite_prefix_append[OF this, of xs] assms that show False by simp
  qed
  then show ?thesis by (simp add: has_citation_iff)
qed

lemma spec_split_stable:
  "(\<forall>i<length gap. cite_prefix (drop i (gap @ xs)) = None) \<Longrightarrow>
   n \<in> set (spec_split xs gap) \<Longrightarrow> rewrite pl n = [n]"
proof (induction xs gap rule: spec_split.induct)
  case (1 gap)
  from no_citation_in_gap[OF "1.prems"(1)] "1.prems"(2) show ?case
    by (auto simp: text_nodes_def createdNodes_empty split: if_splits)
next
  case (2 c cs gap)
  show ?case
  proof (cases "cite_prefix (c # cs)")
    case None
    have "\<forall>i<length (gap @ [c]). cite_prefix (drop i ((gap @ [c]) @ cs)) = None"
    proof (intro allI impI)
      fix i assume "i < length (gap @ [c])"
      then consider "i < length gap" | "i = length gap" by fastforce
      then show "cite_prefix (drop i ((gap @ [c]) @ cs)) = None"
      proof cases
        case 1
        with "2.prems"(1) show ?thesis by simp
      next
        case 2
        with None show ?thesis by simp
      qed
    qed
    from "2.IH"(1)[OF None this] "2.prems"(2) None show ?thesis
      by (simp add: spec_split.simps(2))
  next
    case (Some m)
    then obtain ds after where m: "m = (ds, after)" by (cases m) auto
    from "2.prems"(2) Some m
    consider "n \<in> set (text_nodes gap)"
      | "n = Link (''#ref-'' @ ds) [Text (Some (''['' @ ds @ '']''))]"
      | "n \<in> set (spec_split after [])"
      by (auto simp: spec_split.simps(2))
    then show ?thesis
    proof cases
      case 1
      with no_citation_in_gap[OF "2.prems"(1)] show ?thesis
        by (auto simp: text_nodes_def createdNodes_empty split: if_splits)
    next
      case 2
      then show ?thesis by simp
    next
      case 3
      with "2.IH"(2)[OF Some m[symmetric]] show ?thesis by simp
    qed
  qed
qed

lemma createdNodes_stable: "n \<in> set (createdNodes s) \<Longrightarrow> rewrite pl n = [n]"
  using spec_split_stable[of "[]" s n pl] by (auto simp: createdNodes_spec split: if_splits)

lemma concat_map_singleton: "(\<forall>x\<in>set xs. f x = [x]) \<Longrightarrow> concat (map f xs) = xs"
  by (induction xs) auto

lemma rewrite_stable:
  "n' \<in> set (rewrite pl n) \<Longrightarrow> rewrite pl n' = [n']"
proof (induction n arbitrary: pl n')
  case (Text v)
  show ?case
  proof (cases "rewrite pl (Text v) = [Text v]")
    case True
    with Text show ?thesis by simp
  next
    case False
    then obtain s where "v = Some s" "rewrite pl (Text v) = createdNodes s"
      by (cases v) (auto split: if_splits)
    with Text createdNodes_stable show ?thesis by simp
  qed
next
  case (Link u cs)
  have "\<forall>x\<in>set (concat (map (rewrite True) cs)). rewrite True x = [x]"
    using Link.IH by auto
  from concat_map_singleton[OF this] Link.prems show ?case by simp
next
  case (Container t cs)
  have "\<forall>x\<in>set (concat (map (rewrite False) cs)). rewrite False x = [x]"
    using Container.IH by auto
  from concat_map_singleton[OF this] Container.prems show ?case by simp
next
  case (Leaf t)
  then show ?case by simp
qed

lemma rewrite_twice:
  "concat (map (rewrite pl) (concat (map (rewrite pl) cs))) = concat (map (rewrite pl) cs)"
proof (rule concat_map_singleton)
  show "\<forall>x\<in>set (concat (map (rewrite pl) cs)). rewrite pl x = [x]"
    using rewrite_stable by auto
qed

lemma is_text_set_children: "is_text (set_children p xs) = is_text p"
  by (cases p) auto

lemma collect_references_set:
  "set (collect_references s r refs) = set refs \<union> match1 ` set (exec_all s r)"
proof (induction s r refs rule: collect_references.induct)
  case (1 s r refs)
  show ?case
  proof (cases "regex_exec s r")
    case (Pair mo r')
    show ?thesis
    proof (cases mo)
      case None
      with Pair show ?thesis
        by (simp add: collect_references.simps[of s r refs] exec_all.simps[of s r])
    next
      case (Some m)
      with Pair "1.IH"[OF Pair[symmetric] Some] show ?thesis
        by (auto simp: collect_references.simps[of s r refs] exec_all.simps[of s r] set_add_def)
    qed
  qed
qed

lemma createdNodes_links_exec:
  "link_urls (createdNodes s) = map (\<lambda>m. ''#ref-'' @ match1 m) (exec_all s 0)"
proof -
  obtain l' created' where sc: "scan_citations s 0 0 [] = (l', created')"
    by (cases "scan_citations s 0 0 []") auto
  from scan_citations_links[of s 0 0 "[]"] sc
  have "link_urls created' = map (\<lambda>m. ''#ref-'' @ match1 m) (exec_all s 0)" by simp
  with sc show ?thesis
    by (cases "created' = []") (auto simp: createdNodes_def link_urls_append)
qed

lemma remarkLinkCitations_expected:
  "remarkLinkCitations tree =
     Inr (if is_text tree then (tree, [value_of tree]) else expected tree 0 [])"
  by (simp add: remarkLinkCitations_def visitor_def visit_children_expected)

lemma visitor_missing_value:
  "visitor None index parent = Inr (Undefined, parent) \<or> visitor None index parent = Inr (SKIP, parent)"
  by (simp add: visitor_def regex_exec_undefined split: option.splits)

lemma frame_list_append:
  "frame_list pl a a' \<Longrightarrow> frame_list pl b b' \<Longrightarrow> frame_list pl (a @ b) (a' @ b')"
proof (induction rule: frame_list.induct)
  case (nil plink)
  then show ?case by simp
next
  case (replace_text s cs cs')
  then have "frame_list False (Text (Some s) # (cs @ b)) (spec_split s [] @ (cs' @ b'))"
    by (intro frame_list.replace_text) auto
  then show ?case by simp
qed (auto intro: frame_list.intros)

lemma spec_split_inserted: "list_all inserted (spec_split xs gap)"
proof (induction xs gap rule: spec_split.induct)
  case (1 gap)
  then show ?case by (simp add: text_nodes_def)
next
  case (2 c cs gap)
  show ?case
  proof (cases "cite_prefix (c # cs)")
    case None
    with "2.IH"(1) show ?thesis by (simp add: spec_split.simps(2))
  next
    case (Some m)
    then obtain ds after where m: "m = (ds, after)" by (cases m) auto
    from "2.IH"(2)[OF Some m[symmetric]] Some m show ?thesis
      by (simp add: spec_split.simps(2) text_nodes_def)
  qed
qed

lemma createdNodes_inserted: "list_all inserted (createdNodes s)"
  using spec_split_inserted[of s "[]"] by (simp add: createdNodes_spec)

lemma frame_list_concat:
  "(\<And>c. c \<in> set cs \<Longrightarrow> frame_list pl [c] (f c)) \<Longrightarrow> frame_list pl cs (concat (map f cs))"
proof (induction cs)
  case Nil
  then show ?case by (simp add: frame_list.nil)
next
  case (Cons c cs)
  have "frame_list pl ([c] @ cs) (f c @ concat (map f cs))"
    by (rule frame_list_append) (use Cons in auto)
  then show ?case by simp
qed

lemma rewrite_spec_rewrite: "rewrite pl n = spec_rewrite pl n"
proof (induction n arbitrary: pl)
  case (Text v)
  show ?case
  proof (cases v)
    case None
    then show ?thesis by simp
  next
    case (Some s)
    show ?thesis
    proof (cases "has_citation s")
      case True
      then have "createdNodes s \<noteq> []" by (simp add: createdNodes_empty)
      moreover from True have "createdNodes s = spec_split s []" by (simp add: createdNodes_spec)
      ultimately have "createdNodes s \<noteq> []" "createdNodes s = spec_split s []" by simp_all
      with Some True show ?thesis by simp
    next
      case False
      then have "createdNodes s = []" by (simp add: createdNodes_empty)
      with Some False show ?thesis by simp
    qed
  qed
next
  case (Link u cs)
  then have m: "map (rewrite True) cs = map (spec_rewrite True) cs" by simp
  show ?case by (simp only: rewrite.simps spec_rewrite.simps m)
next
  case (Container t cs)
  then have m: "map (rewrite False) cs = map (spec_rewrite False) cs" by simp
  show ?case by (simp only: rewrite.simps spec_rewrite.simps m)
next
  case (Leaf t)
  then show ?case by simp
qed

lemma rewrite_eq: "rewrite = spec_rewrite"
  by (intro ext) (rule rewrite_spec_rewrite)

lemma frame_list_spec_rewrite: "frame_list pl [n] (spec_rewrite pl n)"
proof (induction n arbitrary: pl)
  case (Text v)
  show ?case
  proof (cases "spec_rewrite pl (Text v) = [Text v]")
    case True
    then show ?thesis by (simp add: frame_list.keep_text frame_list.nil)
  next
    case False
    then obtain s where s: "v = Some s" "\<not> pl" "has_citation s"
      "spec_rewrite pl (Text v) = spec_split s []"
      by (cases v) (auto split: if_splits)
    have "frame_list False (Text (Some s) # []) (spec_split s [] @ [])"
      by (rule frame_list.replace_text[OF s(3) frame_list.nil])
    with s show ?thesis by simp
  qed
next
  case (Link u cs)
  have "frame_list True cs (concat (map (spec_rewrite True) cs))"
    by (rule frame_list_concat) (rule Link.IH)
  then show ?case by (simp add: frame_list.keep_link frame_list.nil)
next
  case (Container t cs)
  have "frame_list False cs (concat (map (spec_rewrite False) cs))"
    by (rule frame_list_concat) (rule Container.IH)
  then show ?case by (simp add: frame_list.keep_container frame_list.nil)
next
  case (Leaf t)
  then show ?case by (simp add: frame_list.keep_leaf frame_list.nil)
qed

lemma remarkLinkCitations_one_pass:
  "remarkLinkCitations tree = Inr (one_pass tree, texts tree)"
proof (cases tree)
  case (Text v)
  then show ?thesis by (simp add: remarkLinkCitations_expected)
next
  case (Link u cs)
  then show ?thesis by (simp add: remarkLinkCitations_expected expected_def rewrite_eq)
next
  case (Container t cs)
  then show ?thesis by (simp add: remarkLinkCitations_expected expected_def rewrite_eq)
next
  case (Leaf t)
  then show ?thesis by (simp add: remarkLinkCitations_expected expected_def)
qed

inductive_cases frame_list_NilE: "frame_list pl [] out"

inductive_cases frame_list_TextE: "frame_list pl (Text v # cs) out"

lemma frame_list_text_kept:
  assumes "frame_list pl [Text v] out"
    and "pl \<or> v = None \<or> (\<exists>s. v = Some s \<and> \<not> has_citation s)"
  shows "out = [Text v]"
  using assms by (auto elim!: frame_list_TextE frame_list_NilE)

lemma frame_list_text_replaced:
  assumes "frame_list pl [Text v] out"
  shows "out = [Text v] \<or> (\<exists>s. \<not> pl \<and> v = Some s \<and> has_citation s \<and> out = spec_split s [])"
  using assms by (auto elim!: frame_list_TextE frame_list_NilE)

lemma frame_list_one_pass: "frame_list False [tree] [one_pass tree]"
proof (cases tree)
  case (Text v)
  then show ?thesis by (simp add: frame_list.keep_text frame_list.nil)
next
  case (Link u cs)
  with frame_list_spec_rewrite[of False tree] show ?thesis by simp
next
  case (Container t cs)
  with frame_list_spec_rewrite[of False tree] show ?thesis by simp
next
  case (Leaf t)
  then show ?thesis by (simp add: frame_list.keep_leaf frame_list.nil)
qed

section \<open>Claims\<close>

text \<open>
  C8. The transform never raises: on every tree it returns a result, not an error. A
  text node that the traversal presents without a parent, without an index, or with a
  parent that has no child sequence is skipped, the visitor returning nothing and
  leaving the parent as it is; a text node whose \<open>value\<close> is missing yields no citation:
  whatever its index and parent, the visitor modifies nothing.
\<close>

theorem C8_never_raises:
  "(\<exists>r. remarkLinkCitations tree = Inr r)
   \<and> visitor v index None = Inr (Undefined, None)
   \<and> visitor v None parent = Inr (Undefined, parent)
   \<and> visitor v index (Some (Text w)) = Inr (Undefined, Some (Text w))
   \<and> visitor v index (Some (Leaf t)) = Inr (Undefined, Some (Leaf t))
   \<and> (visitor None index parent = Inr (Undefined, parent)
        \<or> visitor None index parent = Inr (SKIP, parent))"
proof -
  have "\<exists>r. remarkLinkCitations tree = Inr r"
    by (simp add: remarkLinkCitations_expected)
  moreover have "visitor v index None = Inr (Undefined, None)"
    by (simp add: visitor_def)
  moreover have "visitor v None parent = Inr (Undefined, parent)"
    by (simp add: visitor_def split: option.splits)
  moreover have "visitor v index (Some (Text w)) = Inr (Undefined, Some (Text w))"
    by (simp add: visitor_def)
  moreover have "visitor v index (Some (Leaf t)) = Inr (Undefined, Some (Leaf t))"
    by (simp add: visitor_def)
  ultimately show ?thesis
    using visitor_missing_value[of index parent] by blast
qed



text \<open>
  C2. Whenever the visitor rewrites a text node with value \<open>s\<close> (it returns an index,
  which it does only after splicing), the parent's children are the old ones with the
  node at index \<open>i\<close> replaced by \<open>createdNodes s\<close>, and the text of that replacement
  sequence, read in order and through the children of its link nodes, is exactly \<open>s\<close>.
\<close>

theorem C2_round_trip:
  assumes "children_of p = Some cs"
    and "visitor (Some s) (Some i) (Some p) = Inr (Index n, q)"
  shows "q = Some (set_children p (take i cs @ createdNodes s @ drop (Suc i) cs))
         \<and> n = i + length (createdNodes s)
         \<and> concat (map text_content (createdNodes s)) = s"
  using visitor_Index[OF assms] text_content_spec_split[of s "[]"]
  by (simp add: splice_def)

theorem C2_round_trip_witness:
  "children_of (Container ''paragraph'' [Text (Some ''see [12] for detail'')])
     = Some [Text (Some ''see [12] for detail'')]
   \<and> visitor (Some ''see [12] for detail'') (Some 0)
        (Some (Container ''paragraph'' [Text (Some ''see [12] for detail'')]))
      = Inr (Index 3,
             Some (Container ''paragraph''
                    [Text (Some ''see ''), Link ''#ref-12'' [Text (Some ''[12]'')],
                     Text (Some '' for detail'')]))
   \<and> createdNodes ''see [12] for detail''
      = [Text (Some ''see ''), Link ''#ref-12'' [Text (Some ''[12]'')], Text (Some '' for detail'')]
   \<and> concat (map text_content (createdNodes ''see [12] for detail'')) = ''see [12] for detail''"
proof -
  have h1: "children_of (Container ''paragraph'' [Text (Some ''see [12] for detail'')])
              = Some [Text (Some ''see [12] for detail'')]"
    by simp
  have h2: "visitor (Some ''see [12] for detail'') (Some 0)
              (Some (Container ''paragraph'' [Text (Some ''see [12] for detail'')]))
            = Inr (Index 3,
                   Some (Container ''paragraph''
                          [Text (Some ''see ''), Link ''#ref-12'' [Text (Some ''[12]'')],
                           Text (Some '' for detail'')]))"
    by code_simp
  have c: "createdNodes ''see [12] for detail''
      = [Text (Some ''see ''), Link ''#ref-12'' [Text (Some ''[12]'')], Text (Some '' for detail'')]"
    by code_simp
  from C2_round_trip[OF h1 h2] h1 h2 c show ?thesis by simp
qed

text \<open>
  C5. A text node whose value \<open>s\<close> contains no bracket citation is left as it is: the
  visitor, whatever index and parent it is given, changes nothing and returns no index;
  and in the traversal of a parent whose children are \<open>pre\<close>, the node, \<open>post\<close>, the
  result has the node itself, unchanged, between what the traversal makes of \<open>pre\<close> and
  what it makes of \<open>post\<close>.
\<close>

theorem C5_no_citation_noop:
  assumes "\<not> has_citation s"
  shows "(visitor (Some s) index parent = Inr (Undefined, parent)
          \<or> visitor (Some s) index parent = Inr (SKIP, parent))
       \<and> (children_of p = Some (pre @ Text (Some s) # post)
          \<and> visit_children (set_children p pre) 0 log = Inr (q1, log1)
          \<and> visit_children (set_children p post) 0 (log1 @ [Some s]) = Inr (q2, log2)
          \<longrightarrow> (\<exists>pre' post'. children_of q1 = Some pre' \<and> children_of q2 = Some post'
                 \<and> visit_children p 0 log
                     = Inr (set_children p (pre' @ Text (Some s) # post'), log2)))"
proof (intro conjI impI)
  have "createdNodes s = []" using assms by (simp add: createdNodes_spec)
  then show "visitor (Some s) index parent = Inr (Undefined, parent)
          \<or> visitor (Some s) index parent = Inr (SKIP, parent)"
    by (simp add: visitor_def split: option.splits)
next
  assume a: "children_of p = Some (pre @ Text (Some s) # post)
          \<and> visit_children (set_children p pre) 0 log = Inr (q1, log1)
          \<and> visit_children (set_children p post) 0 (log1 @ [Some s]) = Inr (q2, log2)"
  then have "visit_children (set_children p post) 0 (log1 @ texts (Text (Some s))) = Inr (q2, log2)"
    by simp
  from visit_children_around[OF _ _ this, of pre log q1] a rewrite_no_citation[OF assms, of "is_link p"]
  show "\<exists>pre' post'. children_of q1 = Some pre' \<and> children_of q2 = Some post'
                 \<and> visit_children p 0 log
                     = Inr (set_children p (pre' @ Text (Some s) # post'), log2)"
    by simp
qed

theorem C5_no_citation_noop_witness:
  "\<not> has_citation ''[a] and []''
   \<and> visitor (Some ''[a] and []'') (Some 1)
        (Some (Container ''paragraph'' [Text (Some ''[1]''), Text (Some ''[a] and []''), Text (Some ''x[2]'')]))
      = Inr (Undefined,
             Some (Container ''paragraph'' [Text (Some ''[1]''), Text (Some ''[a] and []''), Text (Some ''x[2]'')]))
   \<and> visit_children
        (Container ''paragraph'' [Text (Some ''[1]''), Text (Some ''[a] and []''), Text (Some ''x[2]'')]) 0 []
      = Inr (Container ''paragraph''
               [Link ''#ref-1'' [Text (Some ''[1]'')], Text (Some ''[a] and []''),
                Text (Some ''x''), Link ''#ref-2'' [Text (Some ''[2]'')]],
             [Some ''[1]'', Some ''[a] and []'', Some ''x[2]''])"
proof -
  let ?p = "Container ''paragraph'' [Text (Some ''[1]''), Text (Some ''[a] and []''), Text (Some ''x[2]'')]"
  have h: "\<not> has_citation ''[a] and []''" by code_simp
  have c: "children_of ?p = Some ([Text (Some ''[1]'')] @ Text (Some ''[a] and []'') # [Text (Some ''x[2]'')])"
    by simp
  have v1: "visit_children (set_children ?p [Text (Some ''[1]'')]) 0 []
            = Inr (Container ''paragraph'' [Link ''#ref-1'' [Text (Some ''[1]'')]], [Some ''[1]''])"
    by code_simp
  have v2: "visit_children (set_children ?p [Text (Some ''x[2]'')]) 0 ([Some ''[1]''] @ [Some ''[a] and []''])
            = Inr (Container ''paragraph'' [Text (Some ''x''), Link ''#ref-2'' [Text (Some ''[2]'')]],
                   [Some ''[1]'', Some ''[a] and []'', Some ''x[2]''])"
    by code_simp
  have u: "visitor (Some ''[a] and []'') (Some 1) (Some ?p) \<noteq> Inr (SKIP, Some ?p)"
    by code_simp
  from C5_no_citation_noop[OF h, of "Some 1" "Some ?p" ?p "[Text (Some ''[1]'')]" "[Text (Some ''x[2]'')]"
         "[]" "Container ''paragraph'' [Link ''#ref-1'' [Text (Some ''[1]'')]]" "[Some ''[1]'']"
         "Container ''paragraph'' [Text (Some ''x''), Link ''#ref-2'' [Text (Some ''[2]'')]]"
         "[Some ''[1]'', Some ''[a] and []'', Some ''x[2]'']"]
       h c v1 v2 u
  show ?thesis by auto
qed

text \<open>
  C4. When a text node with a citation is rewritten under a parent that is not a link,
  the replacement sequence \<open>createdNodes s\<close> takes the node's place: the visitor puts it
  between the children before index \<open>i\<close> and the children after it, and the whole
  traversal of the parent yields it between what it makes of the siblings before and of
  the siblings after. The links of the replacement sequence are, in order, those of the
  matches of the regular expression in \<open>s\<close>, taken by ascending index.
\<close>

theorem C4_position_and_order:
  "(children_of p = Some cs \<and> \<not> is_link p \<and> has_citation s \<longrightarrow>
      visitor (Some s) (Some i) (Some p)
        = Inr (Index (i + length (createdNodes s)),
               Some (set_children p (take i cs @ createdNodes s @ drop (Suc i) cs))))
   \<and> (children_of p = Some (pre @ Text (Some s) # post) \<and> \<not> is_link p \<and> has_citation s
        \<and> visit_children (set_children p pre) 0 log = Inr (q1, log1)
        \<and> visit_children (set_children p post) 0 (log1 @ [Some s]) = Inr (q2, log2)
      \<longrightarrow> (\<exists>pre' post'. children_of q1 = Some pre' \<and> children_of q2 = Some post'
             \<and> visit_children p 0 log
                 = Inr (set_children p (pre' @ createdNodes s @ post'), log2)))
   \<and> link_urls (createdNodes s) = map (\<lambda>j. ''#ref-'' @ digits_at s j) (match_positions s)"
proof (intro conjI impI)
  assume "children_of p = Some cs \<and> \<not> is_link p \<and> has_citation s"
  then show "visitor (Some s) (Some i) (Some p)
        = Inr (Index (i + length (createdNodes s)),
               Some (set_children p (take i cs @ createdNodes s @ drop (Suc i) cs)))"
    using visitor_on_child[of p cs "Some s" i]
    by (simp add: createdNodes_empty splice_def)
next
  assume a: "children_of p = Some (pre @ Text (Some s) # post) \<and> \<not> is_link p \<and> has_citation s
        \<and> visit_children (set_children p pre) 0 log = Inr (q1, log1)
        \<and> visit_children (set_children p post) 0 (log1 @ [Some s]) = Inr (q2, log2)"
  then have "visit_children (set_children p post) 0 (log1 @ texts (Text (Some s))) = Inr (q2, log2)"
    by simp
  from visit_children_around[OF _ _ this, of pre log q1] a rewrite_citation[of s]
  show "\<exists>pre' post'. children_of q1 = Some pre' \<and> children_of q2 = Some post'
             \<and> visit_children p 0 log
                 = Inr (set_children p (pre' @ createdNodes s @ post'), log2)"
    by simp
next
  show "link_urls (createdNodes s) = map (\<lambda>j. ''#ref-'' @ digits_at s j) (match_positions s)"
    by (rule createdNodes_links)
qed

theorem C4_position_and_order_witness:
  "has_citation ''a[1]b[22][3]''
   \<and> visitor (Some ''a[1]b[22][3]'') (Some 1)
        (Some (Container ''paragraph'' [Leaf ''break'', Text (Some ''a[1]b[22][3]''), Text (Some ''[4]'')]))
      = Inr (Index 6,
             Some (Container ''paragraph''
                    [Leaf ''break'',
                     Text (Some ''a''), Link ''#ref-1'' [Text (Some ''[1]'')],
                     Text (Some ''b''), Link ''#ref-22'' [Text (Some ''[22]'')],
                     Link ''#ref-3'' [Text (Some ''[3]'')],
                     Text (Some ''[4]'')]))
   \<and> visit_children
        (Container ''paragraph'' [Leaf ''break'', Text (Some ''a[1]b[22][3]''), Text (Some ''[4]'')]) 0 []
      = Inr (Container ''paragraph''
               [Leaf ''break'',
                Text (Some ''a''), Link ''#ref-1'' [Text (Some ''[1]'')],
                Text (Some ''b''), Link ''#ref-22'' [Text (Some ''[22]'')],
                Link ''#ref-3'' [Text (Some ''[3]'')],
                Link ''#ref-4'' [Text (Some ''[4]'')]],
             [Some ''a[1]b[22][3]'', Some ''[4]''])
   \<and> match_positions ''a[1]b[22][3]'' = [1, 5, 9]
   \<and> link_urls (createdNodes ''a[1]b[22][3]'') = [''#ref-1'', ''#ref-22'', ''#ref-3'']"
proof -
  let ?s = "''a[1]b[22][3]''"
  let ?p = "Container ''paragraph'' [Leaf ''break'', Text (Some ?s), Text (Some ''[4]'')]"
  have h: "has_citation ?s" "\<not> is_link ?p" by code_simp+
  have c: "children_of ?p = Some [Leaf ''break'', Text (Some ?s), Text (Some ''[4]'')]"
    "children_of ?p = Some ([Leaf ''break''] @ Text (Some ?s) # [Text (Some ''[4]'')])"
    by simp_all
  have cn: "createdNodes ?s
            = [Text (Some ''a''), Link ''#ref-1'' [Text (Some ''[1]'')],
               Text (Some ''b''), Link ''#ref-22'' [Text (Some ''[22]'')],
               Link ''#ref-3'' [Text (Some ''[3]'')]]"
    by code_simp
  have v1: "visit_children (set_children ?p [Leaf ''break'']) 0 []
            = Inr (Container ''paragraph'' [Leaf ''break''], [])"
    by code_simp
  have v2: "visit_children (set_children ?p [Text (Some ''[4]'')]) 0 ([] @ [Some ?s])
            = Inr (Container ''paragraph'' [Link ''#ref-4'' [Text (Some ''[4]'')]],
                   [Some ?s, Some ''[4]''])"
    by code_simp
  have mp: "match_positions ?s = [1, 5, 9]" by code_simp
  have dg: "map (\<lambda>j. ''#ref-'' @ digits_at ?s j) [1, 5, 9] = [''#ref-1'', ''#ref-22'', ''#ref-3'']"
    by code_simp
  from C4_position_and_order[of ?p "[Leaf ''break'', Text (Some ?s), Text (Some ''[4]'')]" ?s 1
         "[Leaf ''break'']" "[Text (Some ''[4]'')]" "[]"
         "Container ''paragraph'' [Leaf ''break'']" "[]"
         "Container ''paragraph'' [Link ''#ref-4'' [Text (Some ''[4]'')]]"
         "[Some ?s, Some ''[4]'']"]
       h c v1 v2 cn mp dg
  show ?thesis by auto
qed

text \<open>
  C3. Every text node below a link node should be left unmodified. The code tests the
  parent only: a text node inside an emphasis node inside a link has the emphasis node as
  its parent, and the transform rewrites it, putting a new link inside the link.
\<close>

theorem C3_nested_text_rewritten:
  "remarkLinkCitations
     (Container ''root'' [Container ''paragraph''
        [Link ''https://example.org'' [Container ''emphasis'' [Text (Some ''[3]'')]]]])
   = Inr (Container ''root'' [Container ''paragraph''
            [Link ''https://example.org''
               [Container ''emphasis'' [Link ''#ref-3'' [Text (Some ''[3]'')]]]]],
          [Some ''[3]''])"
  by code_simp

text \<open>
  What the guard does achieve: a text node whose parent is a link node is left unmodified,
  whatever its value. The visitor returns \<^verbatim>\<open>SKIP\<close> without touching the link, and
  the traversal of a link with children \<open>pre\<close>, the text node, \<open>post\<close> keeps the node as
  it is, between what the traversal makes of \<open>pre\<close> and of \<open>post\<close>.
\<close>

lemma link_child_exempt:
  "visitor v (Some i) (Some (Link u cs)) = Inr (SKIP, Some (Link u cs))
   \<and> (visit_children (Link u pre) 0 log = Inr (q1, log1)
        \<and> visit_children (Link u post) 0 (log1 @ [v]) = Inr (q2, log2)
      \<longrightarrow> (\<exists>pre' post'. q1 = Link u pre' \<and> q2 = Link u post'
             \<and> visit_children (Link u (pre @ Text v # post)) 0 log
                 = Inr (Link u (pre' @ Text v # post'), log2)))"
proof (intro conjI impI)
  show "visitor v (Some i) (Some (Link u cs)) = Inr (SKIP, Some (Link u cs))"
    by (simp add: visitor_def)
next
  let ?p = "Link u (pre @ Text v # post)"
  assume a: "visit_children (Link u pre) 0 log = Inr (q1, log1)
        \<and> visit_children (Link u post) 0 (log1 @ [v]) = Inr (q2, log2)"
  have p: "children_of ?p = Some (pre @ Text v # post)" by simp
  from a have 1: "visit_children (set_children ?p pre) 0 log = Inr (q1, log1)"
    and 2: "visit_children (set_children ?p post) 0 (log1 @ texts (Text v)) = Inr (q2, log2)"
    by simp_all
  from visit_children_part[OF p 1] visit_children_part[OF p 2]
  have q: "q1 = Link u (concat (map (rewrite True) pre))"
    "q2 = Link u (concat (map (rewrite True) post))" by simp_all
  from visit_children_around[OF p 1 2] q
  show "\<exists>pre' post'. q1 = Link u pre' \<and> q2 = Link u post'
             \<and> visit_children (Link u (pre @ Text v # post)) 0 log
                 = Inr (Link u (pre' @ Text v # post'), log2)"
    by simp
qed

lemma link_child_exempt_example:
  "visit_children (Link ''https://example.org'' [Text (Some ''see '')]) 0 []
      = Inr (Link ''https://example.org'' [Text (Some ''see '')], [Some ''see ''])
   \<and> visit_children (Link ''https://example.org'' [Text (Some '' and [4]'')]) 0
        ([Some ''see ''] @ [Some ''[3]''])
      = Inr (Link ''https://example.org''
               [Text (Some '' and [4]'')],
             [Some ''see '', Some ''[3]'', Some '' and [4]''])
   \<and> visit_children
        (Link ''https://example.org''
           ([Text (Some ''see '')] @ Text (Some ''[3]'') # [Text (Some '' and [4]'')])) 0 []
      = Inr (Link ''https://example.org''
               ([Text (Some ''see '')] @ Text (Some ''[3]'')
                 # [Text (Some '' and [4]'')]),
             [Some ''see '', Some ''[3]'', Some '' and [4]''])"
proof -
  have v1: "visit_children (Link ''https://example.org'' [Text (Some ''see '')]) 0 []
      = Inr (Link ''https://example.org'' [Text (Some ''see '')], [Some ''see ''])"
    by code_simp
  have v2: "visit_children (Link ''https://example.org'' [Text (Some '' and [4]'')]) 0
        ([Some ''see ''] @ [Some ''[3]''])
      = Inr (Link ''https://example.org''
               [Text (Some '' and [4]'')],
             [Some ''see '', Some ''[3]'', Some '' and [4]''])"
    by code_simp
  from link_child_exempt[of "Some ''[3]''" 0 "''https://example.org''" "[]"
         "[Text (Some ''see '')]" "[]" "Link ''https://example.org'' [Text (Some ''see '')]"
         "[Some ''see '']" "[Text (Some '' and [4]'')]"
         "Link ''https://example.org'' [Text (Some '' and [4]'')]"
         "[Some ''see '', Some ''[3]'', Some '' and [4]'']"]
       v1 v2
  show ?thesis by auto
qed



text \<open>
  C7. The transform is idempotent: run on its own output, it returns that output
  unchanged.
\<close>

theorem C7_idempotent:
  assumes "remarkLinkCitations tree = Inr (tree', log)"
  shows "\<exists>log'. remarkLinkCitations tree' = Inr (tree', log')"
proof (cases "is_text tree")
  case True
  with assms have "tree' = tree" by (simp add: remarkLinkCitations_expected)
  with True show ?thesis by (simp add: remarkLinkCitations_expected)
next
  case False
  with assms have t: "tree' = fst (expected tree 0 [])" by (simp add: remarkLinkCitations_expected)
  show ?thesis
  proof (cases "children_of tree")
    case None
    with t have "tree' = tree" by (simp add: expected_def)
    with False assms show ?thesis by auto
  next
    case (Some cs)
    with t have t': "tree' = set_children tree (concat (map (rewrite (is_link tree)) cs))"
      by (simp add: expected_def)
    have "fst (expected tree' 0 []) = tree'"
      unfolding t' 
      by (simp add: expected_def children_of_set_children[OF Some] is_link_set_children
                    set_children_twice rewrite_twice)
    moreover have "\<not> is_text tree'" using False t' by (simp add: is_text_set_children)
    ultimately show ?thesis
      by (cases "expected tree' 0 []") (auto simp: remarkLinkCitations_expected)
  qed
qed

theorem C7_idempotent_witness:
  "remarkLinkCitations (Container ''root'' [Container ''paragraph''
      [Text (Some ''see [12] and [3].''), Link ''u'' [Text (Some ''[4]'')]]])
    = Inr (Container ''root'' [Container ''paragraph''
             [Text (Some ''see ''), Link ''#ref-12'' [Text (Some ''[12]'')], Text (Some '' and ''),
              Link ''#ref-3'' [Text (Some ''[3]'')], Text (Some ''.''),
              Link ''u'' [Text (Some ''[4]'')]]],
           [Some ''see [12] and [3].'', Some ''[4]''])
   \<and> (\<exists>log'. remarkLinkCitations (Container ''root'' [Container ''paragraph''
             [Text (Some ''see ''), Link ''#ref-12'' [Text (Some ''[12]'')], Text (Some '' and ''),
              Link ''#ref-3'' [Text (Some ''[3]'')], Text (Some ''.''),
              Link ''u'' [Text (Some ''[4]'')]]])
        = Inr (Container ''root'' [Container ''paragraph''
             [Text (Some ''see ''), Link ''#ref-12'' [Text (Some ''[12]'')], Text (Some '' and ''),
              Link ''#ref-3'' [Text (Some ''[3]'')], Text (Some ''.''),
              Link ''u'' [Text (Some ''[4]'')]]], log'))"
proof -
  have h: "remarkLinkCitations (Container ''root'' [Container ''paragraph''
      [Text (Some ''see [12] and [3].''), Link ''u'' [Text (Some ''[4]'')]]])
    = Inr (Container ''root'' [Container ''paragraph''
             [Text (Some ''see ''), Link ''#ref-12'' [Text (Some ''[12]'')], Text (Some '' and ''),
              Link ''#ref-3'' [Text (Some ''[3]'')], Text (Some ''.''),
              Link ''u'' [Text (Some ''[4]'')]]],
           [Some ''see [12] and [3].'', Some ''[4]''])"
    by code_simp
  from C7_idempotent[OF h] h show ?thesis by simp
qed

text \<open>
  C9. For every source string \<open>s\<close>, the digit strings \<open>n\<close> for which the replacement
  sequence of a text node with value \<open>s\<close> holds a link with target \<open>#ref-n\<close> are exactly the
  reference numbers that \<open>extractReferences\<close> derives from \<open>s\<close>; so the link targets are
  exactly the renderer's anchor ids, each preceded by \<open>#\<close>.
\<close>

theorem C9_links_match_anchors:
  "{n. ''#ref-'' @ n \<in> set (link_urls (createdNodes s))} = set (extractReferences parseInt s)
   \<and> set (link_urls (createdNodes s))
       = (\<lambda>anchor. ''#'' @ anchor) ` set (anchor_ids (extractReferences parseInt s))"
proof -
  have r: "set (extractReferences parseInt s) = match1 ` set (exec_all s 0)"
    by (simp add: extractReferences_def collect_references_set)
  have l: "set (link_urls (createdNodes s)) = (\<lambda>n. ''#ref-'' @ n) ` match1 ` set (exec_all s 0)"
    by (simp add: createdNodes_links_exec image_image)
  have "{n. ''#ref-'' @ n \<in> set (link_urls (createdNodes s))} = match1 ` set (exec_all s 0)"
    unfolding l by auto
  moreover have "(\<lambda>anchor. ''#'' @ anchor) ` set (anchor_ids (extractReferences parseInt s))
                 = (\<lambda>n. ''#ref-'' @ n) ` match1 ` set (exec_all s 0)"
    by (simp add: anchor_ids_def r image_image)
  ultimately show ?thesis using r l by simp
qed

text \<open>
  C10. The output tree arises from the input tree by splicing only: every node of the
  input stays in its place with its type, url or value, except text nodes that hold a
  citation and stand under a parent that is not a link, which give way to their
  replacement sequence; a root that is a text node stays. Every node the visitor creates
  is a plain text node or a link node with a single text child.
\<close>

theorem C10_only_splices:
  assumes "remarkLinkCitations tree = Inr (tree', log)"
  shows "frame_list False [tree] [tree']
         \<and> (is_text tree \<longrightarrow> tree' = tree)
         \<and> list_all inserted (createdNodes s)"
proof -
  from assms have t: "tree' = one_pass tree" by (simp add: remarkLinkCitations_one_pass)
  have "is_text tree \<longrightarrow> one_pass tree = tree" by (cases tree) auto
  with t frame_list_one_pass[of tree] createdNodes_inserted[of s] show ?thesis by simp
qed

theorem C10_only_splices_witness:
  "remarkLinkCitations (Container ''root'' [Container ''paragraph''
      [Text (Some ''see [12]''), Leaf ''break'', Link ''u'' [Text (Some ''[4]'')]]])
    = Inr (Container ''root'' [Container ''paragraph''
             [Text (Some ''see ''), Link ''#ref-12'' [Text (Some ''[12]'')],
              Leaf ''break'', Link ''u'' [Text (Some ''[4]'')]]],
           [Some ''see [12]'', Some ''[4]''])
   \<and> frame_list False
        [Container ''root'' [Container ''paragraph''
           [Text (Some ''see [12]''), Leaf ''break'', Link ''u'' [Text (Some ''[4]'')]]]]
        [Container ''root'' [Container ''paragraph''
           [Text (Some ''see ''), Link ''#ref-12'' [Text (Some ''[12]'')],
            Leaf ''break'', Link ''u'' [Text (Some ''[4]'')]]]]
   \<and> list_all inserted (createdNodes ''see [12]'')
   \<and> createdNodes ''see [12]'' = [Text (Some ''see ''), Link ''#ref-12'' [Text (Some ''[12]'')]]"
proof -
  have h: "remarkLinkCitations (Container ''root'' [Container ''paragraph''
      [Text (Some ''see [12]''), Leaf ''break'', Link ''u'' [Text (Some ''[4]'')]]])
    = Inr (Container ''root'' [Container ''paragraph''
             [Text (Some ''see ''), Link ''#ref-12'' [Text (Some ''[12]'')],
              Leaf ''break'', Link ''u'' [Text (Some ''[4]'')]]],
           [Some ''see [12]'', Some ''[4]''])"
    by code_simp
  have c: "createdNodes ''see [12]'' = [Text (Some ''see ''), Link ''#ref-12'' [Text (Some ''[12]'')]]"
    by code_simp
  from C10_only_splices[OF h, of "''see [12]''"] h c show ?thesis by simp
qed

end
